theory Spec2Isabelle
  imports Main "HOL-Library.Word" "HOL-Library.Stream" "HOL-Library.Monad_Syntax"
begin

unbundle bit_operations_syntax

section \<open>Memory-mapped hardware as an environment\<close>

text \<open>
  The code of \<^verbatim>\<open>mailbox.h\<close> and \<^verbatim>\<open>spisl.h\<close> talks to the hardware through the
  volatile structure \<^verbatim>\<open>HW\<close>. Every volatile read returns whatever the peripheral
  holds at that moment, so the environment is an oracle: for each register, the stream
  of the values its successive reads will return. Every access is also appended to a
  log, oldest first, so that the order of register and barrier actions can be stated.
\<close>

type_synonym u8 = "8 word"
type_synonym u32 = "32 word"

text \<open>
  The registers the two headers touch. \<^verbatim>\<open>hw.h\<close> declares the GPIO, PCM, clock manager
  and system timer blocks.

  Modelled from the spec: the mailbox registers \<^verbatim>\<open>HW.MBOX0.STATUS_FULL\<close>,
  \<^verbatim>\<open>HW.MBOX0.STATUS_EMPTY\<close>, \<^verbatim>\<open>HW.MBOX0.DATA\<close> and \<^verbatim>\<open>HW.MBOX1.DATA\<close> are used by
  \<^verbatim>\<open>mailbox.h\<close> but their declaration is not part of \<^verbatim>\<open>hw.h\<close>; they are taken as
  "two FIFO-style 32-bit data registers with full/empty status bits", each status flag
  a location of its own that reads non-zero when the flag is set.
\<close>

datatype reg =
  MBOX0_STATUS_FULL
  | MBOX0_STATUS_EMPTY
  | MBOX0_DATA
  | MBOX1_DATA
  | GPIO_FSEL nat
  | PCM_CS
  | PCM_FIFO
  | PCM_MODE
  | PCM_RXC
  | PCM_TXC
  | PCM_INTEN
  | PCM_INTSTC
  | PCM_GRAY
  | CM_CTL nat
  | CM_DIV nat
  | ST_CLO

datatype action = Rd reg u32 | Wr reg u32 | Barrier

record hw =
  inputs :: "reg \<Rightarrow> u32 stream"
  log :: "action list"

definition hw_read :: "reg \<Rightarrow> hw \<Rightarrow> u32 \<times> hw" where
  "hw_read r s =
     (shd (inputs s r),
      s\<lparr>inputs := (inputs s)(r := stl (inputs s r)),
        log := log s @ [Rd r (shd (inputs s r))]\<rparr>)"

definition hw_write :: "reg \<Rightarrow> u32 \<Rightarrow> hw \<Rightarrow> hw" where
  "hw_write r v s = s\<lparr>log := log s @ [Wr r v]\<rparr>"

text \<open>\<^verbatim>\<open>memory_barrier()\<close>: the ARM data memory barrier; it touches no register.\<close>

definition memory_barrier :: "hw \<Rightarrow> hw" where
  "memory_barrier s = s\<lparr>log := log s @ [Barrier]\<rparr>"

subsection \<open>Bit-fields\<close>

text \<open>
  \<^verbatim>\<open>hw.h\<close> overlays every register with a structure of bit-fields, the first declared
  field in the least significant bits. A field is its bit offset and its width. Reading
  a field reads the register and extracts the bits; assigning to a field reads the
  register, replaces the bits and writes the register back; assigning a whole structure
  writes the register once, the fields not named by the initialiser being zero.
\<close>

type_synonym field = "nat \<times> nat"

definition get_field :: "field \<Rightarrow> u32 \<Rightarrow> u32" where
  "get_field f v = take_bit (snd f) (drop_bit (fst f) v)"

definition set_field :: "field \<Rightarrow> u32 \<Rightarrow> u32 \<Rightarrow> u32" where
  "set_field f x v =
     (v AND NOT (push_bit (fst f) (mask (snd f)))) OR push_bit (fst f) (take_bit (snd f) x)"

definition struct_value :: "(field \<times> u32) list \<Rightarrow> u32" where
  "struct_value fs = foldl (\<lambda>v fx. set_field (fst fx) (snd fx) v) 0 fs"

definition field_write :: "reg \<Rightarrow> field \<Rightarrow> u32 \<Rightarrow> hw \<Rightarrow> hw" where
  "field_write r f x s = hw_write r (set_field f x (fst (hw_read r s))) (snd (hw_read r s))"

text \<open>\<^verbatim>\<open>struct raspi_PCM_CS_reg\<close>\<close>

definition CS_EN :: field where "CS_EN = (0, 1)"
definition CS_RXON :: field where "CS_RXON = (1, 1)"
definition CS_TXON :: field where "CS_TXON = (2, 1)"
definition CS_TXCLR :: field where "CS_TXCLR = (3, 1)"
definition CS_RXCLR :: field where "CS_RXCLR = (4, 1)"
definition CS_TXERR :: field where "CS_TXERR = (15, 1)"
definition CS_RXERR :: field where "CS_RXERR = (16, 1)"
definition CS_TXD :: field where "CS_TXD = (19, 1)"
definition CS_RXD :: field where "CS_RXD = (20, 1)"
definition CS_TXE :: field where "CS_TXE = (21, 1)"
definition CS_SYNC :: field where "CS_SYNC = (24, 1)"
definition CS_STBY :: field where "CS_STBY = (25, 1)"

text \<open>\<^verbatim>\<open>struct raspi_PCM_MODE_reg\<close>\<close>

definition MODE_FSLEN :: field where "MODE_FSLEN = (0, 10)"
definition MODE_FLEN :: field where "MODE_FLEN = (10, 10)"
definition MODE_FSI :: field where "MODE_FSI = (20, 1)"
definition MODE_FSM :: field where "MODE_FSM = (21, 1)"
definition MODE_CLKI :: field where "MODE_CLKI = (22, 1)"
definition MODE_CLKM :: field where "MODE_CLKM = (23, 1)"
definition MODE_CLK_DIS :: field where "MODE_CLK_DIS = (28, 1)"

text \<open>\<^verbatim>\<open>struct raspi_PCM_RXC_reg\<close> and \<^verbatim>\<open>struct raspi_PCM_TXC_reg\<close> (the same layout)\<close>

definition CH1WID :: field where "CH1WID = (16, 4)"
definition CH1POS :: field where "CH1POS = (20, 10)"
definition CH1EN :: field where "CH1EN = (30, 1)"
definition CH1WEX :: field where "CH1WEX = (31, 1)"

text \<open>\<^verbatim>\<open>struct raspi_CM_CTL_reg\<close> and \<^verbatim>\<open>struct raspi_CM_DIV_reg\<close>\<close>

definition CTL_SRC :: field where "CTL_SRC = (0, 4)"
definition CTL_ENAB :: field where "CTL_ENAB = (4, 1)"
definition CTL_MASH :: field where "CTL_MASH = (9, 2)"
definition CTL_PASSWD :: field where "CTL_PASSWD = (24, 8)"
definition DIV_DIVI :: field where "DIV_DIVI = (12, 12)"
definition DIV_PASSWD :: field where "DIV_PASSWD = (24, 8)"

definition CM_PASSWD :: u32 where "CM_PASSWD = 0x5a"
definition CM_OSC :: u32 where "CM_OSC = 1"
definition CM_PCM :: nat where "CM_PCM = 19"

subsection \<open>Loops\<close>

text \<open>
  \<^verbatim>\<open>while (c) b\<close>, where evaluating the condition has an effect (a volatile read) and
  the body may itself not return. A loop that spins forever has the value \<open>None\<close>.
\<close>

partial_function (option) while_loop ::
  "('s \<Rightarrow> bool \<times> 's) \<Rightarrow> ('s \<Rightarrow> 's option) \<Rightarrow> 's \<Rightarrow> 's option" where
  "while_loop c b s =
     (if fst (c s) then Option.bind (b (snd (c s))) (while_loop c b) else Some (snd (c s)))"

text \<open>\<^verbatim>\<open>do b while (c);\<close>\<close>

definition do_while :: "('s \<Rightarrow> 's option) \<Rightarrow> ('s \<Rightarrow> bool \<times> 's) \<Rightarrow> 's \<Rightarrow> 's option" where
  "do_while b c s = Option.bind (b s) (while_loop c b)"

text \<open>
  One evaluation of a condition that reads register \<open>r\<close> and tests the value with \<open>p\<close>,
  and the empty-bodied loop \<^verbatim>\<open>while (p(HW.r));\<close> the code uses for every busy-wait.
\<close>

definition poll :: "reg \<Rightarrow> (u32 \<Rightarrow> bool) \<Rightarrow> hw \<Rightarrow> bool \<times> hw" where
  "poll r p s = (p (fst (hw_read r s)), snd (hw_read r s))"

definition spin_while :: "reg \<Rightarrow> (u32 \<Rightarrow> bool) \<Rightarrow> hw \<Rightarrow> hw option" where
  "spin_while r p s = while_loop (poll r p) Some s"

text \<open>The state after \<open>k\<close> successive reads of register \<open>r\<close>, and the values read from
  a register along a log.\<close>

definition consume :: "reg \<Rightarrow> nat \<Rightarrow> hw \<Rightarrow> hw" where
  "consume r k s =
     s\<lparr>inputs := (inputs s)(r := sdrop k (inputs s r)),
       log := log s @ map (Rd r) (stake k (inputs s r))\<rparr>"

fun reads_of :: "reg \<Rightarrow> action list \<Rightarrow> u32 list" where
  "reads_of r [] = []"
| "reads_of r (Rd r' v # as) = (if r' = r then v # reads_of r as else reads_of r as)"
| "reads_of r (a # as) = reads_of r as"

fun writes_of :: "reg \<Rightarrow> action list \<Rightarrow> u32 list" where
  "writes_of r [] = []"
| "writes_of r (Wr r' v # as) = (if r' = r then v # writes_of r as else writes_of r as)"
| "writes_of r (a # as) = writes_of r as"

text \<open>The actions a run from \<open>s\<close> to \<open>t\<close> has added to the log.\<close>

definition new_log :: "hw \<Rightarrow> hw \<Rightarrow> action list" where
  "new_log s t = drop (length (log s)) (log t)"

text \<open>Two states with the same inputs whose logs differ only in a prefix, the common
  rest starting with a barrier.\<close>

definition log_suffix_rel :: "action list \<Rightarrow> action list \<Rightarrow> hw \<Rightarrow> hw \<Rightarrow> bool" where
  "log_suffix_rel P P' x x' \<longleftrightarrow>
     inputs x' = inputs x \<and> (\<exists>L. log x = P @ Barrier # L \<and> log x' = P' @ Barrier # L)"

section \<open>The firmware mailbox (\<^verbatim>\<open>mailbox.h\<close>)\<close>

subsection \<open>Transport\<close>

text \<open>
  \<^verbatim>\<open>chan | (intptr_t)addr\<close> on the 32-bit ARM: the channel number and the address of
  the buffer are both 32-bit words.
\<close>

definition mbox_write :: "u32 \<Rightarrow> u32 \<Rightarrow> hw \<Rightarrow> hw option" where
  "mbox_write chan addr s = do {
     s1 \<leftarrow> spin_while MBOX0_STATUS_FULL (\<lambda>v. v \<noteq> 0) s;
     Some (memory_barrier (hw_write MBOX1_DATA (chan OR addr) s1))
   }"

definition mbox_read :: "hw \<Rightarrow> (u32 \<times> hw) option" where
  "mbox_read s = do {
     s1 \<leftarrow> spin_while MBOX0_STATUS_EMPTY (\<lambda>v. v \<noteq> 0) (memory_barrier s);
     Some (hw_read MBOX0_DATA s1)
   }"

definition mbox_call :: "u32 \<Rightarrow> u32 \<Rightarrow> hw \<Rightarrow> hw option" where
  "mbox_call chan addr s = do {
     let wanted = chan OR addr;
     s1 \<leftarrow> spin_while MBOX0_STATUS_FULL (\<lambda>v. v \<noteq> 0) s;
     let s2 = hw_write MBOX1_DATA wanted s1;
     do_while (\<lambda>s. spin_while MBOX0_STATUS_EMPTY (\<lambda>v. v \<noteq> 0) (memory_barrier s))
       (poll MBOX0_DATA (\<lambda>v. v \<noteq> wanted)) s2
   }"

text \<open>
  The transport as the specification words it: \<open>call\<close> performs \<open>push\<close>, then repeatedly
  performs \<open>pop\<close> and discards any word that does not exactly equal the word just pushed.
\<close>

partial_function (option) pop_until :: "u32 \<Rightarrow> hw \<Rightarrow> hw option" where
  "pop_until wanted s =
     Option.bind (mbox_read s) (\<lambda>r. if fst r = wanted then Some (snd r) else pop_until wanted (snd r))"

definition mbox_call_spec :: "u32 \<Rightarrow> u32 \<Rightarrow> hw \<Rightarrow> hw option" where
  "mbox_call_spec chan addr s = do {
     s1 \<leftarrow> mbox_write chan addr s;
     pop_until (chan OR addr) s1
   }"

subsection \<open>Property messages\<close>

definition PROP_REQUEST :: u32 where "PROP_REQUEST = 0"
definition PROP_RESPONSE_SUCCESS :: u32 where "PROP_RESPONSE_SUCCESS = 0x80000000"
definition PROP_RESPONSE_ERROR :: u32 where "PROP_RESPONSE_ERROR = 0x80000001"

definition MBOX_TAG_GET_CLOCK_STATE :: u32 where "MBOX_TAG_GET_CLOCK_STATE = 0x00030001"
definition MBOX_TAG_GET_CLOCK_RATE :: u32 where "MBOX_TAG_GET_CLOCK_RATE = 0x00030002"
definition MBOX_TAG_GET_CLOCK_RATE_MEASURED :: u32 where
  "MBOX_TAG_GET_CLOCK_RATE_MEASURED = 0x00030047"
definition MBOX_TAG_SET_CLOCK_STATE :: u32 where "MBOX_TAG_SET_CLOCK_STATE = 0x00038001"
definition MBOX_TAG_SET_CLOCK_RATE :: u32 where "MBOX_TAG_SET_CLOCK_RATE = 0x00038002"

text \<open>
  \<^verbatim>\<open>mbox_property_struct(size)\<close>: the header (\<^verbatim>\<open>buffer_size\<close>, \<^verbatim>\<open>code\<close>), the tag header
  (\<^verbatim>\<open>tag\<close>, \<^verbatim>\<open>buffer_size\<close>, and the bit-fields \<^verbatim>\<open>response_length:31\<close> and
  \<^verbatim>\<open>has_response:1\<close> sharing one word), \<^verbatim>\<open>data[size]\<close> and \<^verbatim>\<open>end\<close>. The macro argument
  \<^verbatim>\<open>size\<close> is the length of \<open>data\<close>.
\<close>

record mbox_property_struct =
  header_buffer_size :: u32
  header_code :: u32
  tag_tag :: u32
  tag_buffer_size :: u32
  tag_response_length :: u32
  tag_has_response :: u32
  data :: "u32 list"
  end_word :: u32

text \<open>
  \<^verbatim>\<open>sizeof\<close> of a C structure: every member is placed at the next multiple of its
  alignment, and the size of the structure is rounded up to a multiple of the largest
  alignment among its members. Members are given as (size, alignment) in bytes.
\<close>

definition align_up :: "nat \<Rightarrow> nat \<Rightarrow> nat" where
  "align_up a n = ((n + a - 1) div a) * a"

fun struct_end :: "nat \<Rightarrow> (nat \<times> nat) list \<Rightarrow> nat" where
  "struct_end off [] = off"
| "struct_end off (m # ms) = struct_end (align_up (snd m) off + fst m) ms"

definition struct_sizeof :: "(nat \<times> nat) list \<Rightarrow> nat" where
  "struct_sizeof ms = align_up (fold max (map snd ms) 1) (struct_end 0 ms)"

text \<open>
  \<^verbatim>\<open>sizeof(mbox)\<close> for \<^verbatim>\<open>mbox_property_struct(size) mbox\<close>. The header type is declared
  \<^verbatim>\<open>typedef struct { uint32_t buffer_size; uint32_t code; } mbox_property_header_t
  __attribute__((aligned(16)))\<close>: two words, aligned to 16 bytes. The tag header is three
  words, then come the data words (\<open>n\<close> of them) and the word \<^verbatim>\<open>end\<close>.
\<close>

definition sizeof_mbox_property_struct :: "nat \<Rightarrow> nat" where
  "sizeof_mbox_property_struct n = struct_sizeof [(8, 16), (12, 4), (4 * n, 4), (4, 4)]"

text \<open>
  The length of a single-tag message on the wire, as the specification describes it:
  the 8-byte header, the 12-byte tag header, the value words and the 4-byte terminator.
\<close>

definition serialized_length :: "nat \<Rightarrow> nat" where
  "serialized_length n = 8 + 12 + 4 * n + 4"

text \<open>
  The assignments of the macro \<^verbatim>\<open>mbox_property_call(tagid, mbox)\<close> before its call of
  \<^verbatim>\<open>mbox_call\<close>: the buffer the firmware is handed.
\<close>

definition mbox_property_request :: "u32 \<Rightarrow> mbox_property_struct \<Rightarrow> mbox_property_struct" where
  "mbox_property_request tagid mbox =
     mbox\<lparr>header_buffer_size := of_nat (sizeof_mbox_property_struct (length (data mbox))),
          header_code := PROP_REQUEST,
          tag_tag := tagid,
          tag_buffer_size := of_nat (4 * length (data mbox)),
          tag_response_length := take_bit 31 (of_nat (4 * length (data mbox))),
          tag_has_response := 0,
          end_word := 0\<rparr>"

text \<open>
  While \<^verbatim>\<open>mbox_call\<close> waits, the firmware overwrites the buffer in place. The firmware
  is part of the environment: the stream of what it does to the buffer of each
  successive call. The property channel \<^verbatim>\<open>MBOX_CH_PROPVC\<close> is declared outside
  \<^verbatim>\<open>mailbox.h\<close> and the address \<^verbatim>\<open>&mbox\<close> of the local buffer is chosen by the compiler:
  both are parameters.
\<close>

type_synonym firmware = "(mbox_property_struct \<Rightarrow> mbox_property_struct) stream"

definition mbox_property_call ::
  "u32 \<Rightarrow> u32 \<Rightarrow> u32 \<Rightarrow> mbox_property_struct \<times> firmware \<times> hw \<Rightarrow>
   (mbox_property_struct \<times> firmware \<times> hw) option" where
  "mbox_property_call chan addr tagid st =
     (case st of (mbox, fw, s) \<Rightarrow> do {
        s1 \<leftarrow> mbox_call chan addr s;
        Some (shd fw (mbox_property_request tagid mbox), stl fw, s1)
      })"

text \<open>
  The three clients. \<open>mbox\<close> is the local buffer as the stack holds it on entry (C does
  not initialise it); \<open>clock\<close> is the number of the \<^verbatim>\<open>mbox_property_clock_t\<close> value.
\<close>

definition mbox_set_clock ::
  "u32 \<Rightarrow> u32 \<Rightarrow> u32 \<Rightarrow> u32 \<Rightarrow> mbox_property_struct \<times> firmware \<times> hw \<Rightarrow> (firmware \<times> hw) option" where
  "mbox_set_clock chan addr clock freq st =
     (case st of (mbox, fw, s) \<Rightarrow> do {
        let mbox = mbox\<lparr>data := (data mbox)[0 := clock, 1 := 1]\<rparr>;
        (mbox, fw, s) \<leftarrow> mbox_property_call chan addr MBOX_TAG_SET_CLOCK_STATE (mbox, fw, s);
        let mbox = mbox\<lparr>data := (data mbox)[0 := clock, 1 := freq, 2 := 0]\<rparr>;
        (mbox, fw, s) \<leftarrow> mbox_property_call chan addr MBOX_TAG_SET_CLOCK_RATE (mbox, fw, s);
        Some (fw, s)
      })"

definition mbox_get_clock ::
  "u32 \<Rightarrow> u32 \<Rightarrow> u32 \<Rightarrow> mbox_property_struct \<times> firmware \<times> hw \<Rightarrow> (u32 \<times> firmware \<times> hw) option" where
  "mbox_get_clock chan addr clock st =
     (case st of (mbox, fw, s) \<Rightarrow> do {
        let mbox = mbox\<lparr>data := (data mbox)[0 := clock, 1 := 0]\<rparr>;
        (mbox, fw, s) \<leftarrow> mbox_property_call chan addr MBOX_TAG_GET_CLOCK_STATE (mbox, fw, s);
        if data mbox ! 1 = 0 then Some (0, fw, s)
        else do {
          let mbox = mbox\<lparr>data := (data mbox)[0 := clock, 1 := 0]\<rparr>;
          (mbox, fw, s) \<leftarrow> mbox_property_call chan addr MBOX_TAG_GET_CLOCK_RATE (mbox, fw, s);
          Some (data mbox ! 1, fw, s)
        }
      })"

definition mbox_get_clock_measured ::
  "u32 \<Rightarrow> u32 \<Rightarrow> u32 \<Rightarrow> mbox_property_struct \<times> firmware \<times> hw \<Rightarrow> (u32 \<times> firmware \<times> hw) option" where
  "mbox_get_clock_measured chan addr clock st =
     (case st of (mbox, fw, s) \<Rightarrow> do {
        let mbox = mbox\<lparr>data := (data mbox)[0 := clock, 1 := 0]\<rparr>;
        (mbox, fw, s) \<leftarrow> mbox_property_call chan addr MBOX_TAG_GET_CLOCK_RATE_MEASURED (mbox, fw, s);
        Some (data mbox ! 1, fw, s)
      })"

section \<open>GPIO and system timer helpers (\<^verbatim>\<open>hw.h\<close>)\<close>

datatype raspi_GPIO_function = Input | Output | Alt0 | Alt1 | Alt2 | Alt3 | Alt4 | Alt5

fun function_value :: "raspi_GPIO_function \<Rightarrow> u32" where
  "function_value Input = 0"
| "function_value Output = 1"
| "function_value Alt0 = 4"
| "function_value Alt1 = 5"
| "function_value Alt2 = 6"
| "function_value Alt3 = 7"
| "function_value Alt4 = 3"
| "function_value Alt5 = 2"

definition gpio_configure :: "nat \<Rightarrow> raspi_GPIO_function \<Rightarrow> hw \<Rightarrow> hw" where
  "gpio_configure gpio function s =
     (let tmp = fst (hw_read (GPIO_FSEL (gpio div 10)) s) AND NOT (push_bit ((gpio mod 10) * 3) 7)
      in hw_write (GPIO_FSEL (gpio div 10))
           (tmp OR push_bit ((gpio mod 10) * 3) (function_value function AND 7))
           (snd (hw_read (GPIO_FSEL (gpio div 10)) s)))"

definition ST_1s :: u32 where "ST_1s = 1000000"
definition ST_1ms :: u32 where "ST_1ms = ST_1s div 1000"
definition ST_1us :: u32 where "ST_1us = ST_1s div 1000000"

text \<open>Unsigned 32-bit subtraction wraps, as the comment in the source relies on.\<close>

definition st_elapsed :: "u32 \<Rightarrow> u32 \<Rightarrow> u32 \<Rightarrow> bool" where
  "st_elapsed before after diff \<longleftrightarrow> after - before \<ge> diff"

definition st_delay :: "u32 \<Rightarrow> hw \<Rightarrow> hw option" where
  "st_delay delay s =
     spin_while ST_CLO (\<lambda>now. \<not> st_elapsed (fst (hw_read ST_CLO s)) now delay)
       (snd (hw_read ST_CLO s))"

section \<open>The SPI slave on the PCM block (\<^verbatim>\<open>spisl.h\<close>)\<close>

definition init_cs :: u32 where
  "init_cs = struct_value [(CS_TXCLR, 1), (CS_RXCLR, 1), (CS_TXERR, 1), (CS_RXERR, 1),
     (CS_TXON, 1), (CS_RXON, 1), (CS_SYNC, 1), (CS_STBY, 1), (CS_EN, 1)]"

definition mode_master :: u32 where
  "mode_master = struct_value [(MODE_FLEN, 7), (MODE_FSLEN, 7), (MODE_CLKM, 0), (MODE_CLKI, 0),
     (MODE_FSM, 0), (MODE_FSI, 0), (MODE_CLK_DIS, 1)]"

definition mode_slave :: u32 where
  "mode_slave = struct_value [(MODE_FLEN, 7), (MODE_FSLEN, 7), (MODE_CLKM, 1), (MODE_CLKI, 0),
     (MODE_FSM, 1), (MODE_FSI, 1), (MODE_CLK_DIS, 1)]"

definition pcm_cm_ctl :: u32 where
  "pcm_cm_ctl = struct_value [(CTL_PASSWD, CM_PASSWD), (CTL_SRC, CM_OSC), (CTL_MASH, 1),
     (CTL_ENAB, 1)]"

definition pcm_cm_div :: u32 where
  "pcm_cm_div = struct_value [(DIV_PASSWD, CM_PASSWD), (DIV_DIVI, 250)]"

text \<open>\<^verbatim>\<open>while (HW.PCM.CS.B.RXD) (void)HW.PCM.FIFO;\<close>, also the last loop of \<^verbatim>\<open>spisl_write\<close>.\<close>

definition drain_fifo :: "hw \<Rightarrow> hw option" where
  "drain_fifo s =
     while_loop (poll PCM_CS (\<lambda>v. get_field CS_RXD v \<noteq> 0)) (\<lambda>s. Some (snd (hw_read PCM_FIFO s))) s"

text \<open>The state after \<open>k\<close> rounds of the drain loop: a poll of the status register that
  finds RXD set, and the read of the FIFO that follows it.\<close>

fun drain_rounds :: "nat \<Rightarrow> hw \<Rightarrow> hw" where
  "drain_rounds 0 s = s"
| "drain_rounds (Suc k) s = drain_rounds k (snd (hw_read PCM_FIFO (snd (hw_read PCM_CS s))))"

text \<open>The steps of \<^verbatim>\<open>spisl_init\<close>, in the order of the source.\<close>

definition init_detach :: "hw \<Rightarrow> hw" where
  "init_detach s =
     memory_barrier (gpio_configure 31 Input (gpio_configure 30 Input
       (gpio_configure 29 Input (gpio_configure 28 Input s))))"

definition init_channels :: "hw \<Rightarrow> hw" where
  "init_channels s =
     (let s = hw_write PCM_RXC 0 s;
          s = hw_write PCM_TXC 0 s;
          s = hw_write PCM_INTEN 0 s;
          s = hw_write PCM_INTSTC 15 s;
          s = hw_write PCM_GRAY 0 s;
          s = field_write PCM_RXC CH1WEX 0 s;
          s = field_write PCM_RXC CH1POS 0 s;
          s = field_write PCM_RXC CH1WID 0 s;
          s = field_write PCM_RXC CH1EN 1 s;
          s = field_write PCM_TXC CH1WEX 0 s;
          s = field_write PCM_TXC CH1POS 0 s;
          s = field_write PCM_TXC CH1WID 0 s;
          s = field_write PCM_TXC CH1EN 1 s
      in s)"

definition init_master :: "hw \<Rightarrow> hw" where
  "init_master s =
     (let s = hw_write (CM_DIV CM_PCM) pcm_cm_div s;
          s = hw_write (CM_CTL CM_PCM) pcm_cm_ctl s;
          s = hw_write PCM_MODE mode_master s;
          s = field_write PCM_MODE MODE_CLK_DIS 0 s;
          s = hw_write PCM_CS init_cs s
      in s)"

definition init_slave :: "hw \<Rightarrow> hw" where
  "init_slave s =
     (let s = field_write PCM_MODE MODE_CLK_DIS 1 s;
          s = hw_write PCM_MODE mode_slave s;
          s = memory_barrier s;
          s = gpio_configure 28 Alt2 s;
          s = gpio_configure 29 Alt2 s;
          s = gpio_configure 30 Alt2 s;
          s = gpio_configure 31 Alt2 s;
          s = memory_barrier s;
          s = field_write PCM_MODE MODE_CLK_DIS 0 s
      in memory_barrier s)"

definition spisl_init :: "hw \<Rightarrow> hw option" where
  "spisl_init s = do {
     s \<leftarrow> drain_fifo (init_detach s);
     s \<leftarrow> st_delay ST_1ms (field_write PCM_CS CS_EN 0 s);
     s \<leftarrow> spin_while PCM_CS (\<lambda>v. get_field CS_SYNC v = 0) (init_master (init_channels s));
     s \<leftarrow> spin_while PCM_CS (\<lambda>v. get_field CS_SYNC v \<noteq> 0) (field_write PCM_CS CS_SYNC 0 s);
     Some (init_slave s)
   }"

definition spisl_read :: "hw \<Rightarrow> (u8 \<times> hw) option" where
  "spisl_read s = do {
     s1 \<leftarrow> spin_while PCM_CS (\<lambda>v. get_field CS_RXD v = 0) s;
     Some (ucast (fst (hw_read PCM_FIFO s1)), snd (hw_read PCM_FIFO s1))
   }"

definition spisl_write :: "u8 \<Rightarrow> hw \<Rightarrow> hw option" where
  "spisl_write d s = do {
     s1 \<leftarrow> spin_while PCM_CS (\<lambda>v. get_field CS_TXD v = 0) s;
     drain_fifo (hw_write PCM_FIFO (ucast d) s1)
   }"

text \<open>
  \<^verbatim>\<open>spisl_synchronize\<close>. The state of its loops is \<^verbatim>\<open>cnt\<close>, \<^verbatim>\<open>incoming\<close> and the
  hardware. \<^verbatim>\<open>cnt\<close> is a C \<^verbatim>\<open>int\<close> that stays between 0 and 11, so it is an \<open>int\<close> here.
  The condition \<^verbatim>\<open>cnt++ < 10\<close> compares the old value and increments.
\<close>

definition marker :: u8 where "marker = 0x81"

definition sync_cond :: "int \<times> u8 \<times> hw \<Rightarrow> bool \<times> (int \<times> u8 \<times> hw)" where
  "sync_cond st = (case st of (cnt, incoming, s) \<Rightarrow> (cnt < 10, (cnt + 1, incoming, s)))"

definition sync_body :: "int \<times> u8 \<times> hw \<Rightarrow> (int \<times> u8 \<times> hw) option" where
  "sync_body st =
     (case st of (cnt, incoming, s) \<Rightarrow> do {
        (cnt, s) \<leftarrow>
          (if incoming \<noteq> marker then do {
             s \<leftarrow> st_delay ST_1us (field_write PCM_MODE MODE_CLK_DIS 1 s);
             Some (0, field_write PCM_MODE MODE_CLK_DIS 0 s)
           } else Some (cnt, s));
        (incoming, s) \<leftarrow> spisl_read s;
        Some (cnt, incoming, s)
      })"

text \<open>Lines 239 to 248: the first read and the counting loop.\<close>

definition sync_count :: "hw \<Rightarrow> (int \<times> u8 \<times> hw) option" where
  "sync_count s = do {
     (incoming, s) \<leftarrow> spisl_read s;
     while_loop sync_cond sync_body (0, incoming, s)
   }"

text \<open>Line 254: \<^verbatim>\<open>while (incoming != marker) incoming = spisl_read();\<close>\<close>

definition sync_wait :: "u8 \<Rightarrow> u8 \<times> hw \<Rightarrow> (u8 \<times> hw) option" where
  "sync_wait m st = while_loop (\<lambda>st. (fst st \<noteq> m, st)) (\<lambda>st. spisl_read (snd st)) st"

definition spisl_synchronize :: "hw \<Rightarrow> hw option" where
  "spisl_synchronize s = do {
     (cnt, incoming, s) \<leftarrow> sync_count s;
     s \<leftarrow> spisl_write marker s;
     (incoming, s) \<leftarrow> sync_wait (marker XOR 0xff) (incoming, s);
     Some s
   }"

text \<open>The bytes \<open>spisl_read\<close> has returned between two states: the low bytes of the words
  read from the FIFO.\<close>

definition received :: "hw \<Rightarrow> hw \<Rightarrow> u8 list" where
  "received s t = map ucast (reads_of PCM_FIFO (new_log s t))"

text \<open>The status words seen while polling for flag \<open>f\<close>: it is clear in all but the last
  and set in the last.\<close>

definition ready_after :: "field \<Rightarrow> u32 list \<Rightarrow> bool" where
  "ready_after f ws \<longleftrightarrow>
     ws \<noteq> [] \<and> get_field f (last ws) \<noteq> 0 \<and> (\<forall>v \<in> set (butlast ws). get_field f v = 0)"

text \<open>The accesses of successive calls of \<open>spisl_read\<close>: for each call the status words
  polled and the word read from the FIFO.\<close>

fun read_actions :: "u32 list list \<Rightarrow> u32 list \<Rightarrow> action list" where
  "read_actions (ws # segs) (v # vs) = map (Rd PCM_CS) ws @ [Rd PCM_FIFO v] @ read_actions segs vs"
| "read_actions segs vs = []"

text \<open>The function-select field of a pin within its \<^verbatim>\<open>FSEL\<close> register.\<close>

definition fsel_field :: "nat \<Rightarrow> field" where
  "fsel_field gpio = ((gpio mod 10) * 3, 3)"

text \<open>The accesses of the drain loop \<^verbatim>\<open>while (HW.PCM.CS.B.RXD) ... = HW.PCM.FIFO;\<close> while it
  runs: for every round the status word polled and the word read from the FIFO.\<close>

definition drain_actions :: "(u32 \<times> u32) list \<Rightarrow> action list" where
  "drain_actions ps = concat (map (\<lambda>p. [Rd PCM_CS (fst p), Rd PCM_FIFO (snd p)]) ps)"

subsection \<open>Runs of \<^verbatim>\<open>spisl_init\<close> that are cut short\<close>

text \<open>
  A run that blocks in one of the busy-wait loops never returns, and has no final state.
  To speak of what such a run has done, every loop is given a bound: \<open>while_upto n\<close> is
  the loop \<^verbatim>\<open>while (c) b\<close> stopped when its condition is about to be evaluated for the
  \<open>n+1\<close>-th time. The result is \<open>Inr t\<close> when the loop has ended by then, in state \<open>t\<close>, and
  \<open>Inl u\<close> when it has been cut, \<open>u\<close> being the state reached so far.
\<close>

fun while_upto :: "nat \<Rightarrow> (hw \<Rightarrow> bool \<times> hw) \<Rightarrow> (hw \<Rightarrow> hw) \<Rightarrow> hw \<Rightarrow> hw + hw" where
  "while_upto 0 c b s = Inl s"
| "while_upto (Suc n) c b s =
     (if fst (c s) then while_upto n c b (b (snd (c s))) else Inr (snd (c s)))"

text \<open>Sequencing: what follows a loop is run only when the loop has ended.\<close>

definition and_then :: "hw + hw \<Rightarrow> (hw \<Rightarrow> hw + hw) \<Rightarrow> hw + hw" where
  "and_then r f = (case r of Inl u \<Rightarrow> Inl u | Inr t \<Rightarrow> f t)"

text \<open>\<^verbatim>\<open>st_delay\<close> and \<^verbatim>\<open>spisl_init\<close> with every loop bounded by \<open>n\<close>; the statements are
  those of \<open>st_delay\<close> and \<open>spisl_init\<close> above, in the same order.\<close>

definition st_delay_upto :: "nat \<Rightarrow> u32 \<Rightarrow> hw \<Rightarrow> hw + hw" where
  "st_delay_upto n delay s =
     while_upto n (poll ST_CLO (\<lambda>now. \<not> st_elapsed (fst (hw_read ST_CLO s)) now delay)) id
       (snd (hw_read ST_CLO s))"

definition spisl_init_upto :: "nat \<Rightarrow> hw \<Rightarrow> hw + hw" where
  "spisl_init_upto n s =
     and_then (while_upto n (poll PCM_CS (\<lambda>v. get_field CS_RXD v \<noteq> 0))
                 (\<lambda>s. snd (hw_read PCM_FIFO s)) (init_detach s)) (\<lambda>s.
     and_then (st_delay_upto n ST_1ms (field_write PCM_CS CS_EN 0 s)) (\<lambda>s.
     and_then (while_upto n (poll PCM_CS (\<lambda>v. get_field CS_SYNC v = 0)) id
                 (init_master (init_channels s))) (\<lambda>s.
     and_then (while_upto n (poll PCM_CS (\<lambda>v. get_field CS_SYNC v \<noteq> 0)) id
                 (field_write PCM_CS CS_SYNC 0 s)) (\<lambda>s.
     Inr (init_slave s)))))"

subsection \<open>The sequence of accesses of \<^verbatim>\<open>spisl_init\<close>\<close>

text \<open>The two accesses of an assignment \<^verbatim>\<open>HW.r.B.f = x\<close> to a bit-field, when the register
  holds \<open>v\<close>: the read of \<open>v\<close> and the write of \<open>v\<close> with the field replaced. Selecting
  function \<open>f\<close> for a pin is such an assignment to the pin's field of its \<^verbatim>\<open>FSEL\<close>
  register.\<close>

definition rmw :: "reg \<Rightarrow> field \<Rightarrow> u32 \<Rightarrow> u32 \<Rightarrow> action list" where
  "rmw r f x v = [Rd r v, Wr r (set_field f x v)]"

definition pin_select :: "nat \<Rightarrow> raspi_GPIO_function \<Rightarrow> u32 \<Rightarrow> action list" where
  "pin_select gpio f v =
     rmw (GPIO_FSEL (gpio div 10)) (fsel_field gpio) (function_value f) v"

text \<open>The four PCM pins are made inputs, then a barrier.\<close>

definition detach_block :: "action list \<Rightarrow> bool" where
  "detach_block D \<longleftrightarrow>
     (\<exists>a b c d. D = pin_select 28 Input a @ pin_select 29 Input b @ pin_select 30 Input c @
                    pin_select 31 Input d @ [Barrier])"

text \<open>The receive FIFO is drained: a word is read from it after every poll of the status
  register that shows RXD, up to the first poll that shows RXD clear.\<close>

definition drain_block :: "action list \<Rightarrow> bool" where
  "drain_block R \<longleftrightarrow>
     (\<exists>ps v. R = drain_actions ps @ [Rd PCM_CS v] \<and>
        (\<forall>p \<in> set ps. get_field CS_RXD (fst p) \<noteq> 0) \<and> get_field CS_RXD v = 0)"

text \<open>A delay of \<open>d\<close> ticks: the timer is read once for the start time and then polled,
  up to the first reading that is at least \<open>d\<close> ticks after the start.\<close>

definition delay_block :: "u32 \<Rightarrow> action list \<Rightarrow> bool" where
  "delay_block d T \<longleftrightarrow>
     (\<exists>t0 ts. T = map (Rd ST_CLO) (t0 # ts) \<and> ts \<noteq> [] \<and> st_elapsed t0 (last ts) d \<and>
        (\<forall>t \<in> set (butlast ts). \<not> st_elapsed t0 t d))"

text \<open>The channel configuration: five registers written whole, then four bit-fields of
  RXC and four of TXC.\<close>

definition channel_block :: "action list \<Rightarrow> bool" where
  "channel_block C \<longleftrightarrow>
     (\<exists>r1 r2 r3 r4 t1 t2 t3 t4.
        C = [Wr PCM_RXC 0, Wr PCM_TXC 0, Wr PCM_INTEN 0, Wr PCM_INTSTC 15, Wr PCM_GRAY 0] @
            rmw PCM_RXC CH1WEX 0 r1 @ rmw PCM_RXC CH1POS 0 r2 @ rmw PCM_RXC CH1WID 0 r3 @
            rmw PCM_RXC CH1EN 1 r4 @
            rmw PCM_TXC CH1WEX 0 t1 @ rmw PCM_TXC CH1POS 0 t2 @ rmw PCM_TXC CH1WID 0 t3 @
            rmw PCM_TXC CH1EN 1 t4)"

text \<open>The reset sequence: clock divider, clock control, the mode register set to the
  master configuration, its \<^verbatim>\<open>CLK_DIS\<close> field cleared, and the status register set to
  \<open>init_cs\<close>.\<close>

definition master_block :: "action list \<Rightarrow> bool" where
  "master_block M \<longleftrightarrow>
     (\<exists>m. M = [Wr (CM_DIV CM_PCM) pcm_cm_div, Wr (CM_CTL CM_PCM) pcm_cm_ctl,
                Wr PCM_MODE mode_master] @
               rmw PCM_MODE MODE_CLK_DIS 0 m @ [Wr PCM_CS init_cs])"

text \<open>A busy-wait on the status register: it is polled while \<open>p\<close> holds of the value read,
  up to the first value of which \<open>p\<close> does not hold.\<close>

definition wait_block :: "(u32 \<Rightarrow> bool) \<Rightarrow> action list \<Rightarrow> bool" where
  "wait_block p W \<longleftrightarrow>
     (\<exists>vs. W = map (Rd PCM_CS) vs \<and> vs \<noteq> [] \<and> \<not> p (last vs) \<and> (\<forall>v \<in> set (butlast vs). p v))"

text \<open>The switch to slave mode: \<^verbatim>\<open>CLK_DIS\<close> set, the mode register set to the slave
  configuration, a barrier, the four pins handed to the PCM block (Alt2), a barrier,
  \<^verbatim>\<open>CLK_DIS\<close> cleared, a barrier.\<close>

definition slave_block :: "action list \<Rightarrow> bool" where
  "slave_block S \<longleftrightarrow>
     (\<exists>m a b c d m'.
        S = rmw PCM_MODE MODE_CLK_DIS 1 m @ [Wr PCM_MODE mode_slave, Barrier] @
            pin_select 28 Alt2 a @ pin_select 29 Alt2 b @ pin_select 30 Alt2 c @
            pin_select 31 Alt2 d @ [Barrier] @
            rmw PCM_MODE MODE_CLK_DIS 0 m' @ [Barrier])"

text \<open>
  The whole sequence, in the order the specification gives: the pins are detached, the
  FIFO is drained, EN is cleared, 1 ms passes, the channels are configured, the master
  configuration is written, the status register is polled until SYNC is set, SYNC is
  cleared, the status register is polled until SYNC is clear, and the interface is
  switched to slave mode and attached.
\<close>

definition init_sequence :: "action list \<Rightarrow> bool" where
  "init_sequence L \<longleftrightarrow>
     (\<exists>D R e T C M W1 y W2 S.
        L = D @ R @ rmw PCM_CS CS_EN 0 e @ T @ C @ M @
            W1 @ rmw PCM_CS CS_SYNC 0 y @ W2 @ S \<and>
        detach_block D \<and> drain_block R \<and> delay_block ST_1ms T \<and> channel_block C \<and>
        master_block M \<and> wait_block (\<lambda>v. get_field CS_SYNC v = 0) W1 \<and>
        wait_block (\<lambda>v. get_field CS_SYNC v \<noteq> 0) W2 \<and> slave_block S)"

section \<open>Concrete buffers and environments\<close>

text \<open>The local buffers of \<open>mbox_get_clock\<close> (two data words) and \<open>mbox_set_clock\<close> (three).\<close>

definition get_clock_buffer :: mbox_property_struct where
  "get_clock_buffer = \<lparr>header_buffer_size = 0, header_code = 0, tag_tag = 0, tag_buffer_size = 0,
     tag_response_length = 0, tag_has_response = 0, data = [0, 0], end_word = 0\<rparr>"

definition set_clock_buffer :: mbox_property_struct where
  "set_clock_buffer = \<lparr>header_buffer_size = 0, header_code = 0, tag_tag = 0, tag_buffer_size = 0,
     tag_response_length = 0, tag_has_response = 0, data = [0, 0, 0], end_word = 0\<rparr>"

text \<open>A mailbox whose status flags never block and whose read FIFO holds two words of
  other channels before the word \<open>0x48\<close> (channel 8, buffer at \<open>0x40\<close>).\<close>

definition mbox_env :: hw where
  "mbox_env = \<lparr>inputs = (\<lambda>r. sconst 0)(MBOX0_DATA := [0x11, 0x22] @- (0x48 ## sconst 0)), log = []\<rparr>"

text \<open>A mailbox that answers every call at once, and firmwares that report the clock
  running at 700 (with either status code) or switched off.\<close>

definition mbox_ready :: hw where
  "mbox_ready = \<lparr>inputs = (\<lambda>r. sconst 0)(MBOX0_DATA := sconst 0x48), log = []\<rparr>"

definition firmware_ok :: firmware where
  "firmware_ok = sconst (\<lambda>m. m\<lparr>header_code := PROP_RESPONSE_SUCCESS, data := [2, 700]\<rparr>)"

definition firmware_error :: firmware where
  "firmware_error = sconst (\<lambda>m. m\<lparr>header_code := PROP_RESPONSE_ERROR, data := [2, 700]\<rparr>)"

definition firmware_off :: firmware where
  "firmware_off = sconst (\<lambda>m. m\<lparr>header_code := PROP_RESPONSE_SUCCESS, data := [2, 0]\<rparr>)"

text \<open>Status registers for \<open>spisl_write\<close>: TXD (bit 19) and RXD (bit 20) are set at the
  first poll; RXD stays set for one more poll, or for two, before it clears.\<close>

definition write_env :: hw where
  "write_env = \<lparr>inputs = (\<lambda>r. sconst 0)(PCM_CS := [0x180000, 0x100000] @- sconst 0x80000,
      PCM_FIFO := 0xAA ## 0xBB ## sconst 0), log = []\<rparr>"

definition write_env2 :: hw where
  "write_env2 = \<lparr>inputs = (\<lambda>r. sconst 0)(PCM_CS := [0x180000, 0x100000, 0x100000] @- sconst 0x80000,
      PCM_FIFO := 0xAA ## 0xBB ## sconst 0), log = []\<rparr>"

text \<open>Two environments for \<open>spisl_synchronize\<close>. In both the receive FIFO delivers the
  marker eleven times and then \<open>0x7E\<close>. In the first, every byte is reported (RXD, bit 20)
  when it is read, and nothing is pending when the acknowledgement is written; the timer
  advances. In the second, all twelve bytes are in the FIFO from the start: RXD stays set
  until the last of them has been read, and never comes back.\<close>

definition sync_env :: hw where
  "sync_env = \<lparr>inputs = (\<lambda>r. sconst 0)
      (PCM_CS := replicate 11 0x100000 @- (0x80000 ## 0 ## 0 ## 0x100000 ## sconst 0),
       PCM_FIFO := replicate 11 0x81 @- (0x7E ## sconst 0),
       ST_CLO := 5 ## 7 ## sconst 9), log = []\<rparr>"

definition sync_env_preloaded :: hw where
  "sync_env_preloaded = \<lparr>inputs = (\<lambda>r. sconst 0)
      (PCM_CS := replicate 11 0x180000 @- (0x180000 ## 0x180000 ## sconst 0x80000),
       PCM_FIFO := replicate 11 0x81 @- (0x7E ## sconst 0)), log = []\<rparr>"

text \<open>An environment for \<open>spisl_init\<close>: the receive FIFO is empty, the timer has advanced
  by 1000 ticks at its second reading, and the SYNC flag (bit 24) is set at the third and
  fourth reading of the status register and clear from the fifth on.\<close>

definition init_env :: hw where
  "init_env = \<lparr>inputs = (\<lambda>r. sconst 0)
      (PCM_CS := [0, 0, 0x1000000, 0x1000000] @- sconst 0,
       ST_CLO := 0 ## 1000 ## sconst 2000), log = []\<rparr>"

text \<open>The same environment with a status register that never shows SYNC: the first
  wait for SYNC never ends.\<close>

definition init_env_stuck :: hw where
  "init_env_stuck = \<lparr>inputs = (\<lambda>r. sconst 0)(ST_CLO := 0 ## 1000 ## sconst 2000), log = []\<rparr>"

section \<open>Facts about the hardware model and the loops\<close>

lemma while_loop_True:
  "fst (c s) \<Longrightarrow> while_loop c b s = Option.bind (b (snd (c s))) (while_loop c b)"
  by (subst while_loop.simps) simp

lemma while_loop_False:
  "\<not> fst (c s) \<Longrightarrow> while_loop c b s = Some (snd (c s))"
  by (subst while_loop.simps) simp


lemma hw_read_consume: "hw_read r s = (shd (inputs s r), consume r 1 s)"
  by (simp add: hw_read_def consume_def)

lemma consume_0: "consume r 0 s = s"
  by (simp add: consume_def)

lemma consume_consume: "consume r k (consume r j s) = consume r (j + k) s"
  by (simp add: consume_def sdrop_add stake_add map_append[symmetric] del: map_append)

lemma while_loop_rule_aux:
  assumes "while_loop c b s = Some t"
  shows "(\<forall>s s'. I s \<longrightarrow> fst (c s) \<longrightarrow> b (snd (c s)) = Some s' \<longrightarrow> I s') \<longrightarrow> I s \<longrightarrow>
     (\<exists>u. I u \<and> \<not> fst (c u) \<and> t = snd (c u))"
  using assms
proof (induction rule: while_loop.raw_induct[rotated 1, consumes 1])
  case (1 w c b s t)
  show ?case
  proof (intro impI)
    assume pres: "\<forall>s s'. I s \<longrightarrow> fst (c s) \<longrightarrow> b (snd (c s)) = Some s' \<longrightarrow> I s'" and inv: "I s"
    show "\<exists>u. I u \<and> \<not> fst (c u) \<and> t = snd (c u)"
    proof (cases "fst (c s)")
      case True
      with 1(2) obtain s1 where b: "b (snd (c s)) = Some s1" and w: "w c b s1 = Some t"
        by (auto simp: bind_eq_Some_conv)
      from pres inv True b have "I s1" by blast
      with 1(1)[OF w] pres show ?thesis by blast
    next
      case False
      with 1(2) inv show ?thesis by auto
    qed
  qed
qed

lemma while_loop_rule:
  assumes "while_loop c b s = Some t" and "I s"
    and "\<And>s s'. I s \<Longrightarrow> fst (c s) \<Longrightarrow> b (snd (c s)) = Some s' \<Longrightarrow> I s'"
  shows "\<exists>u. I u \<and> \<not> fst (c u) \<and> t = snd (c u)"
proof -
  have "\<forall>s s'. I s \<longrightarrow> fst (c s) \<longrightarrow> b (snd (c s)) = Some s' \<longrightarrow> I s'"
    using assms(3) by blast
  with while_loop_rule_aux[OF assms(1), of I] assms(2) show ?thesis by simp
qed

lemma spin_while_steps:
  "(\<forall>i<n. p (inputs s r !! i)) \<Longrightarrow> \<not> p (inputs s r !! n) \<Longrightarrow>
   spin_while r p s = Some (consume r (Suc n) s)"
proof (induction n arbitrary: s)
  case 0
  then show ?case
    by (simp add: spin_while_def while_loop_False poll_def hw_read_consume)
next
  case (Suc n)
  let ?s1 = "consume r 1 s"
  have in1: "inputs ?s1 r = stl (inputs s r)" by (simp add: consume_def)
  from Suc.prems have p0: "p (shd (inputs s r))" by (metis snth.simps(1) zero_less_Suc)
  have "spin_while r p s = spin_while r p ?s1"
    using p0 by (simp add: spin_while_def while_loop_True poll_def hw_read_consume)
  also have "\<dots> = Some (consume r (Suc n) ?s1)"
  proof (rule Suc.IH)
    show "\<forall>i<n. p (inputs ?s1 r !! i)" using Suc.prems(1) in1 by auto
    show "\<not> p (inputs ?s1 r !! n)" using Suc.prems(2) in1 by simp
  qed
  finally show ?case by (simp add: consume_consume)
qed

lemma spin_while_Some_iff:
  "spin_while r p s = Some t \<longleftrightarrow>
     (\<exists>n. (\<forall>i<n. p (inputs s r !! i)) \<and> \<not> p (inputs s r !! n) \<and> t = consume r (Suc n) s)"
proof
  assume run: "spin_while r p s = Some t"
  define I where "I u \<longleftrightarrow> (\<exists>k. u = consume r k s \<and> (\<forall>i<k. p (inputs s r !! i)))" for u
  have I0: "I s" unfolding I_def by (rule exI[of _ 0]) (simp add: consume_0)
  have step: "I u'" if "I u" "fst (poll r p u)" "Some (snd (poll r p u)) = Some u'" for u u'
  proof -
    from that(1) obtain k where k: "u = consume r k s" "\<forall>i<k. p (inputs s r !! i)"
      unfolding I_def by blast
    have hd: "shd (inputs u r) = inputs s r !! k" using k(1) by (simp add: consume_def)
    from that(3) have u': "u' = consume r (Suc k) s"
      by (simp add: poll_def hw_read_consume k(1) consume_consume)
    from that(2) have "p (inputs s r !! k)" by (simp add: poll_def hw_read_consume hd)
    with k(2) have "\<forall>i<Suc k. p (inputs s r !! i)" by (simp add: less_Suc_eq)
    with u' show ?thesis unfolding I_def by blast
  qed
  have "\<exists>u. I u \<and> \<not> fst (poll r p u) \<and> t = snd (poll r p u)"
  proof (rule while_loop_rule[where I = I and b = Some and s = s])
    show "while_loop (poll r p) Some s = Some t" using run unfolding spin_while_def .
    show "I s" by (rule I0)
    show "I u'" if "I u" "fst (poll r p u)" "Some (snd (poll r p u)) = Some u'" for u u'
      using that by (rule step)
  qed
  then obtain u where u: "I u" "\<not> fst (poll r p u)" "t = snd (poll r p u)" by blast
  from u(1) obtain k where k: "u = consume r k s" "\<forall>i<k. p (inputs s r !! i)"
    unfolding I_def by blast
  have hd: "shd (inputs u r) = inputs s r !! k" using k(1) by (simp add: consume_def)
  from u(2) have "\<not> p (inputs s r !! k)" by (simp add: poll_def hw_read_consume hd)
  moreover from u(3) have "t = consume r (Suc k) s"
    by (simp add: poll_def hw_read_consume k(1) consume_consume)
  ultimately show "\<exists>n. (\<forall>i<n. p (inputs s r !! i)) \<and> \<not> p (inputs s r !! n) \<and> t = consume r (Suc n) s"
    using k(2) by blast
next
  assume "\<exists>n. (\<forall>i<n. p (inputs s r !! i)) \<and> \<not> p (inputs s r !! n) \<and> t = consume r (Suc n) s"
  then obtain n where "\<forall>i<n. p (inputs s r !! i)" "\<not> p (inputs s r !! n)" "t = consume r (Suc n) s"
    by blast
  then show "spin_while r p s = Some t" by (simp add: spin_while_steps)
qed

lemma spin_while_None:
  assumes "\<forall>n. p (inputs s r !! n)"
  shows "spin_while r p s = None"
proof (rule ccontr)
  assume "spin_while r p s \<noteq> None"
  then obtain t where "spin_while r p s = Some t" by auto
  then obtain n where "\<not> p (inputs s r !! n)" unfolding spin_while_Some_iff by blast
  with assms show False by blast
qed


lemma inputs_consume: "inputs (consume r k s) = (inputs s)(r := sdrop k (inputs s r))"
  by (simp add: consume_def)

lemma log_consume: "log (consume r k s) = log s @ map (Rd r) (stake k (inputs s r))"
  by (simp add: consume_def)

lemma inputs_hw_write [simp]: "inputs (hw_write r v s) = inputs s"
  by (simp add: hw_write_def)

lemma log_hw_write [simp]: "log (hw_write r v s) = log s @ [Wr r v]"
  by (simp add: hw_write_def)

lemma inputs_memory_barrier [simp]: "inputs (memory_barrier s) = inputs s"
  by (simp add: memory_barrier_def)

lemma log_memory_barrier [simp]: "log (memory_barrier s) = log s @ [Barrier]"
  by (simp add: memory_barrier_def)

lemma spin_while_stuck:
  assumes "\<forall>n. p (inputs s r !! n)" and "inputs s' r = inputs s r"
  shows "spin_while r p s' = None"
  using assms by (intro spin_while_None) simp

lemma spin_while_inputs_other:
  assumes "spin_while r p s = Some t" and "r' \<noteq> r"
  shows "inputs t r' = inputs s r'"
  using assms by (auto simp: spin_while_Some_iff inputs_consume)

lemma reads_of_append [simp]: "reads_of r (xs @ ys) = reads_of r xs @ reads_of r ys"
  by (induction r xs rule: reads_of.induct) auto

lemma writes_of_append [simp]: "writes_of r (xs @ ys) = writes_of r xs @ writes_of r ys"
  by (induction r xs rule: writes_of.induct) auto

lemma reads_of_map_Rd [simp]: "reads_of r (map (Rd r') vs) = (if r' = r then vs else [])"
  by (induction vs) auto

lemma writes_of_map_Rd [simp]: "writes_of r (map (Rd r') vs) = []"
  by (induction vs) auto

lemma new_log_append [simp]: "log t = log s @ L \<Longrightarrow> new_log s t = L"
  by (simp add: new_log_def)

lemma spin_while_SomeD:
  assumes "spin_while r p s = Some t"
  obtains n where "\<forall>i<n. p (inputs s r !! i)" and "\<not> p (inputs s r !! n)"
    and "t = consume r (Suc n) s"
  using assms unfolding spin_while_Some_iff by blast

lemma spin_while_terminates:
  assumes "\<exists>n. \<not> p (inputs s r !! n)"
  shows "\<exists>k. spin_while r p s = Some (consume r (Suc k) s) \<and> \<not> p (inputs s r !! k) \<and>
           (\<forall>i<k. p (inputs s r !! i))"
proof -
  define k where "k = (LEAST n. \<not> p (inputs s r !! n))"
  have k: "\<not> p (inputs s r !! k)" unfolding k_def using assms by (rule LeastI_ex)
  have lt: "\<forall>i<k. p (inputs s r !! i)" unfolding k_def using not_less_Least by blast
  from spin_while_steps[OF lt k] k lt show ?thesis by blast
qed

lemma sconst_snth [simp]: "sconst x !! n = x"
  by (induction n) simp_all

lemma sdrop_sconst [simp]: "sdrop n (sconst x) = sconst x"
  by (induction n) simp_all

lemma while_loop_sim_aux:
  assumes "while_loop c b x = Some t"
  shows "(\<forall>x x'. R x x' \<longrightarrow> fst (c' x') = fst (c x) \<and> R (snd (c x)) (snd (c' x'))) \<longrightarrow>
         (\<forall>x x' y. R x x' \<longrightarrow> b x = Some y \<longrightarrow> (\<exists>y'. b' x' = Some y' \<and> R y y')) \<longrightarrow>
         (\<forall>x'. R x x' \<longrightarrow> (\<exists>t'. while_loop c' b' x' = Some t' \<and> R t t'))"
  using assms
proof (induction rule: while_loop.raw_induct[rotated 1, consumes 1])
  case (1 w c b x t)
  show ?case
  proof (intro impI allI)
    fix x'
    assume cc: "\<forall>x x'. R x x' \<longrightarrow> fst (c' x') = fst (c x) \<and> R (snd (c x)) (snd (c' x'))"
      and bb: "\<forall>x x' y. R x x' \<longrightarrow> b x = Some y \<longrightarrow> (\<exists>y'. b' x' = Some y' \<and> R y y')"
      and r: "R x x'"
    from cc r have f: "fst (c' x') = fst (c x)" and r1: "R (snd (c x)) (snd (c' x'))" by blast+
    show "\<exists>t'. while_loop c' b' x' = Some t' \<and> R t t'"
    proof (cases "fst (c x)")
      case True
      with 1(2) obtain y where y: "b (snd (c x)) = Some y" and wy: "w c b y = Some t"
        by (auto simp: bind_eq_Some_conv)
      from bb r1 y obtain y' where y': "b' (snd (c' x')) = Some y'" and ry: "R y y'" by blast
      from 1(1)[OF wy] cc bb ry obtain t' where "while_loop c' b' y' = Some t'" "R t t'" by blast
      moreover have "while_loop c' b' x' = while_loop c' b' y'"
        using True f y' by (simp add: while_loop_True)
      ultimately show ?thesis by simp
    next
      case False
      with 1(2) have "t = snd (c x)" by simp
      moreover have "while_loop c' b' x' = Some (snd (c' x'))"
        using False f by (simp add: while_loop_False)
      ultimately show ?thesis using r1 by simp
    qed
  qed
qed

lemma while_loop_sim:
  assumes "while_loop c b x = Some t" and "R x x'"
    and "\<And>x x'. R x x' \<Longrightarrow> fst (c' x') = fst (c x) \<and> R (snd (c x)) (snd (c' x'))"
    and "\<And>x x' y. R x x' \<Longrightarrow> b x = Some y \<Longrightarrow> \<exists>y'. b' x' = Some y' \<and> R y y'"
  shows "\<exists>t'. while_loop c' b' x' = Some t' \<and> R t t'"
proof -
  have a: "\<forall>x x'. R x x' \<longrightarrow> fst (c' x') = fst (c x) \<and> R (snd (c x)) (snd (c' x'))"
    using assms(3) by blast
  have b: "\<forall>x x' y. R x x' \<longrightarrow> b x = Some y \<longrightarrow> (\<exists>y'. b' x' = Some y' \<and> R y y')"
    using assms(4) by blast
  from while_loop_sim_aux[OF assms(1), of R c' b'] a b assms(2) show ?thesis by simp
qed


lemma fst_hw_read [simp]: "fst (hw_read r s) = shd (inputs s r)"
  by (simp add: hw_read_def)

lemma inputs_hw_read [simp]: "inputs (snd (hw_read r s)) = (inputs s)(r := stl (inputs s r))"
  by (simp add: hw_read_def)

lemma log_hw_read [simp]: "log (snd (hw_read r s)) = log s @ [Rd r (shd (inputs s r))]"
  by (simp add: hw_read_def)

lemma inputs_field_write [simp]:
  "inputs (field_write r f x s) = (inputs s)(r := stl (inputs s r))"
  by (simp add: field_write_def)

lemma log_field_write [simp]:
  "log (field_write r f x s) =
     log s @ [Rd r (shd (inputs s r)), Wr r (set_field f x (shd (inputs s r)))]"
  by (simp add: field_write_def)

lemma inputs_gpio_configure [simp]:
  "inputs (gpio_configure g f s) =
     (inputs s)(GPIO_FSEL (g div 10) := stl (inputs s (GPIO_FSEL (g div 10))))"
  by (simp add: gpio_configure_def Let_def)

section \<open>The size written into a property message\<close>

lemma sizeof_mbox_property_struct_eq:
  "sizeof_mbox_property_struct n = ((serialized_length n + 15) div 16) * 16"
  by (simp add: sizeof_mbox_property_struct_def struct_sizeof_def align_up_def
      serialized_length_def)

lemma round16_exact:
  "((serialized_length n + 15) div 16) * 16 = serialized_length n \<longleftrightarrow> n mod 4 = 2"
proof -
  have sl: "serialized_length n = 4 * (n + 6)" by (simp add: serialized_length_def)
  have a: "((serialized_length n + 15) div 16) * 16 = serialized_length n
             \<longleftrightarrow> 16 dvd serialized_length n"
  proof
    assume "((serialized_length n + 15) div 16) * 16 = serialized_length n"
    then show "16 dvd serialized_length n" by (metis dvd_triv_right)
  next
    assume "16 dvd serialized_length n"
    then obtain k where "serialized_length n = 16 * k" by (auto simp: dvd_def)
    then show "((serialized_length n + 15) div 16) * 16 = serialized_length n" by simp
  qed
  have "(16::nat) dvd 4 * (n + 6) \<longleftrightarrow> 4 dvd n + 6"
    using nat_mult_dvd_cancel_disj[of 4 4 "n + 6"] by simp
  also have "\<dots> \<longleftrightarrow> n mod 4 = 2" by presburger
  finally show ?thesis using a sl by simp
qed

lemma header_buffer_size_request:
  "header_buffer_size (mbox_property_request tagid mbox) =
     of_nat (sizeof_mbox_property_struct (length (data mbox)))"
  by (simp add: mbox_property_request_def)

text \<open>
  C1, as the code has it. The header field \<open>buffer_size\<close> written by
  \<open>mbox_property_call\<close> is \<open>sizeof(mbox)\<close>. The header type is aligned to 16 bytes, so
  the size of the structure is the serialized length (header, tag header, value words
  and terminator) rounded up to the next multiple of 16. It is the exact serialized
  length precisely when the number of value words is 2 modulo 4.
\<close>

theorem buffer_size_is_padded_length:
  assumes "length (data mbox) = n" and "serialized_length n + 15 < 2 ^ 32"
  shows "unat (header_buffer_size (mbox_property_request tagid mbox)) =
           ((serialized_length n + 15) div 16) * 16 \<and>
         serialized_length n \<le> unat (header_buffer_size (mbox_property_request tagid mbox)) \<and>
         unat (header_buffer_size (mbox_property_request tagid mbox)) < serialized_length n + 16 \<and>
         (unat (header_buffer_size (mbox_property_request tagid mbox)) = serialized_length n
            \<longleftrightarrow> n mod 4 = 2)"
proof -
  let ?z = "((serialized_length n + 15) div 16) * 16"
  have le: "?z \<le> serialized_length n + 15" by simp
  with assms(2) have "?z < 2 ^ 32" by linarith
  then have u: "unat (header_buffer_size (mbox_property_request tagid mbox)) = ?z"
    by (simp only: header_buffer_size_request assms(1) sizeof_mbox_property_struct_eq)
      (rule of_nat_inverse[OF refl], simp)
  have ge: "serialized_length n \<le> ?z" by linarith
  have lt: "?z < serialized_length n + 16" by linarith
  have eq: "?z = serialized_length n \<longleftrightarrow> n mod 4 = 2"
    by (rule round16_exact)
  from u ge lt eq show ?thesis by simp
qed

theorem buffer_size_is_padded_length_witness:
  "length (data get_clock_buffer) = 2 \<and> serialized_length 2 + 15 < 2 ^ 32 \<and>
   unat (header_buffer_size (mbox_property_request MBOX_TAG_GET_CLOCK_RATE get_clock_buffer)) = 32 \<and>
   serialized_length 2 = 32"
proof -
  have l: "length (data get_clock_buffer) = 2" by (simp add: get_clock_buffer_def)
  have b: "serialized_length 2 + 15 < 2 ^ 32" by (simp add: serialized_length_def)
  from buffer_size_is_padded_length[OF l b, of MBOX_TAG_GET_CLOCK_RATE] l b
  show ?thesis by (simp add: serialized_length_def)
qed

theorem buffer_size_counts_padding:
  "unat (header_buffer_size (mbox_property_request MBOX_TAG_SET_CLOCK_RATE set_clock_buffer)) = 48 \<and>
   serialized_length (length (data set_clock_buffer)) = 36"
  by (simp add: header_buffer_size_request set_clock_buffer_def sizeof_mbox_property_struct_eq
      serialized_length_def)

section \<open>The mailbox transport\<close>

text \<open>What a returning \<open>mbox_call\<close> has done.\<close>

lemma mbox_call_SomeD:
  assumes run: "mbox_call chan addr s = Some t"
  shows "\<exists>n L fs G. inputs s MBOX0_DATA !! n = chan OR addr \<and>
           (\<forall>i<n. inputs s MBOX0_DATA !! i \<noteq> chan OR addr) \<and>
           inputs t MBOX0_DATA = sdrop (Suc n) (inputs s MBOX0_DATA) \<and>
           log t = log s @ L \<and>
           reads_of MBOX0_DATA L = stake (Suc n) (inputs s MBOX0_DATA) \<and>
           writes_of MBOX1_DATA L = [chan OR addr] \<and>
           L = map (Rd MBOX0_STATUS_FULL) fs @ Wr MBOX1_DATA (chan OR addr) # G \<and>
           reads_of MBOX0_DATA G = stake (Suc n) (inputs s MBOX0_DATA) \<and>
           writes_of MBOX1_DATA G = [] \<and> G \<noteq> [] \<and> last G = Rd MBOX0_DATA (chan OR addr)"
proof -
  define w where "w = chan OR addr"
  define d where "d = inputs s MBOX0_DATA"
  define b where "b = (\<lambda>s. spin_while MBOX0_STATUS_EMPTY (\<lambda>v. v \<noteq> 0) (memory_barrier s))"
  define c where "c = poll MBOX0_DATA (\<lambda>v. v \<noteq> w)"
  from run obtain s1 where s1: "spin_while MBOX0_STATUS_FULL (\<lambda>v. v \<noteq> 0) s = Some s1"
    and dw: "do_while b c (hw_write MBOX1_DATA w s1) = Some t"
    by (auto simp: mbox_call_def Let_def bind_eq_Some_conv w_def b_def c_def)
  from s1 obtain m where m: "s1 = consume MBOX0_STATUS_FULL (Suc m) s"
    by (rule spin_while_SomeD)
  define fs where "fs = stake (Suc m) (inputs s MBOX0_STATUS_FULL)"
  define I where "I u \<longleftrightarrow> (\<exists>k G. inputs u MBOX0_DATA = sdrop k d \<and> (\<forall>i<k. d !! i \<noteq> w) \<and>
      log u = log s @ map (Rd MBOX0_STATUS_FULL) fs @ Wr MBOX1_DATA w # G \<and>
      reads_of MBOX0_DATA G = stake k d \<and> writes_of MBOX1_DATA G = [])" for u :: hw
  from dw obtain s3 where s3: "b (hw_write MBOX1_DATA w s1) = Some s3"
    and wl: "while_loop c b s3 = Some t"
    by (auto simp: do_while_def bind_eq_Some_conv)
  have b_step: "inputs u' MBOX0_DATA = inputs u MBOX0_DATA \<and>
      (\<exists>L. log u' = log u @ L \<and> reads_of MBOX0_DATA L = [] \<and> writes_of MBOX1_DATA L = [])"
    if "b u = Some u'" for u u'
  proof -
    from that obtain j where "u' = consume MBOX0_STATUS_EMPTY (Suc j) (memory_barrier u)"
      unfolding b_def by (rule spin_while_SomeD)
    then show ?thesis by (simp add: inputs_consume log_consume)
  qed
  have I3: "I s3"
  proof -
    from b_step[OF s3] obtain L where L: "inputs s3 MBOX0_DATA = inputs s1 MBOX0_DATA"
      "log s3 = log s1 @ [Wr MBOX1_DATA w] @ L" "reads_of MBOX0_DATA L = []"
      "writes_of MBOX1_DATA L = []"
      by auto
    show ?thesis unfolding I_def
      apply (rule exI[of _ 0])
      apply (rule exI[of _ L])
      using L by (simp add: m inputs_consume log_consume d_def fs_def)
  qed
  have step: "I u'" if "I u" "fst (c u)" "b (snd (c u)) = Some u'" for u u'
  proof -
    from that(1) obtain k G where k: "inputs u MBOX0_DATA = sdrop k d" "\<forall>i<k. d !! i \<noteq> w"
      "log u = log s @ map (Rd MBOX0_STATUS_FULL) fs @ Wr MBOX1_DATA w # G"
      "reads_of MBOX0_DATA G = stake k d" "writes_of MBOX1_DATA G = []"
      unfolding I_def by blast
    have hd: "shd (inputs u MBOX0_DATA) = d !! k" by (simp add: k(1))
    have cu: "snd (c u) = consume MBOX0_DATA 1 u" by (simp add: c_def poll_def hw_read_consume)
    from that(2) have ne: "d !! k \<noteq> w" by (simp add: c_def poll_def hw_read_consume hd)
    from b_step[OF that(3)] obtain L' where L': "inputs u' MBOX0_DATA = inputs (snd (c u)) MBOX0_DATA"
      "log u' = log (snd (c u)) @ L'" "reads_of MBOX0_DATA L' = []" "writes_of MBOX1_DATA L' = []"
      by auto
    have "\<forall>i<Suc k. d !! i \<noteq> w" using k(2) ne by (simp add: less_Suc_eq)
    moreover have "inputs u' MBOX0_DATA = sdrop (Suc k) d"
      using L'(1) by (simp add: cu inputs_consume k(1))
    moreover have "log u' = log s @ map (Rd MBOX0_STATUS_FULL) fs @
        Wr MBOX1_DATA w # (G @ [Rd MBOX0_DATA (d !! k)] @ L')"
      using L'(2) by (simp add: cu log_consume k(3) hd)
    moreover have "reads_of MBOX0_DATA (G @ [Rd MBOX0_DATA (d !! k)] @ L') = stake (Suc k) d"
      by (simp add: k(4) L'(3) stake_Suc del: stake.simps)
    moreover have "writes_of MBOX1_DATA (G @ [Rd MBOX0_DATA (d !! k)] @ L') = []"
      by (simp add: k(5) L'(4))
    ultimately show ?thesis unfolding I_def by blast
  qed
  have "\<exists>u. I u \<and> \<not> fst (c u) \<and> t = snd (c u)"
    by (rule while_loop_rule[where I = I, OF wl I3]) (rule step)
  then obtain u where u: "I u" "\<not> fst (c u)" "t = snd (c u)" by blast
  from u(1) obtain k G where k: "inputs u MBOX0_DATA = sdrop k d" "\<forall>i<k. d !! i \<noteq> w"
    "log u = log s @ map (Rd MBOX0_STATUS_FULL) fs @ Wr MBOX1_DATA w # G"
    "reads_of MBOX0_DATA G = stake k d" "writes_of MBOX1_DATA G = []"
    unfolding I_def by blast
  have hd: "shd (inputs u MBOX0_DATA) = d !! k" by (simp add: k(1))
  have t: "t = consume MBOX0_DATA 1 u" using u(3) by (simp add: c_def poll_def hw_read_consume)
  from u(2) have eq: "d !! k = w" by (simp add: c_def poll_def hw_read_consume hd)
  let ?G = "G @ [Rd MBOX0_DATA (d !! k)]"
  let ?L = "map (Rd MBOX0_STATUS_FULL) fs @ Wr MBOX1_DATA w # ?G"
  have "inputs t MBOX0_DATA = sdrop (Suc k) d" by (simp add: t inputs_consume k(1))
  moreover have "log t = log s @ ?L"
    by (simp add: t log_consume k(3) hd)
  moreover have g: "reads_of MBOX0_DATA ?G = stake (Suc k) d"
    by (simp add: k(4) stake_Suc del: stake.simps)
  moreover have "reads_of MBOX0_DATA ?L = stake (Suc k) d"
    using g by (simp add: reads_of_append del: stake.simps)
  moreover have g': "writes_of MBOX1_DATA ?G = []"
    by (simp add: k(5))
  moreover have "writes_of MBOX1_DATA ?L = [w]"
    using g' by (simp add: writes_of_append)
  moreover have "?G \<noteq> []" "last ?G = Rd MBOX0_DATA w" using eq by simp_all
  ultimately show ?thesis using eq k(2) unfolding d_def w_def by blast
qed

lemma mbox_wait_returns:
  assumes "\<forall>k. \<exists>j. inputs u MBOX0_STATUS_EMPTY !! (k + j) = 0"
    and "inputs u MBOX0_DATA !! n = w"
  shows "\<exists>t. while_loop (poll MBOX0_DATA (\<lambda>v. v \<noteq> w))
           (\<lambda>s. spin_while MBOX0_STATUS_EMPTY (\<lambda>v. v \<noteq> 0) (memory_barrier s)) u = Some t"
  using assms
proof (induction n arbitrary: u)
  case 0
  then show ?case by (simp add: while_loop_False poll_def hw_read_def)
next
  case (Suc n)
  let ?c = "poll MBOX0_DATA (\<lambda>v. v \<noteq> w)"
  let ?b = "\<lambda>s. spin_while MBOX0_STATUS_EMPTY (\<lambda>v. v \<noteq> 0) (memory_barrier s)"
  show ?case
  proof (cases "shd (inputs u MBOX0_DATA) = w")
    case True
    then show ?thesis by (simp add: while_loop_False poll_def hw_read_def)
  next
    case False
    let ?u1 = "memory_barrier (consume MBOX0_DATA 1 u)"
    from Suc.prems(1) obtain j where "inputs u MBOX0_STATUS_EMPTY !! (0 + j) = 0" by blast
    then have "\<exists>n. \<not> (inputs ?u1 MBOX0_STATUS_EMPTY !! n \<noteq> 0)"
      by (auto simp: inputs_consume)
    from spin_while_terminates[OF this] obtain k
      where k: "?b (consume MBOX0_DATA 1 u) = Some (consume MBOX0_STATUS_EMPTY (Suc k) ?u1)"
      by blast
    let ?u2 = "consume MBOX0_STATUS_EMPTY (Suc k) ?u1"
    have fair: "\<forall>k'. \<exists>j. inputs ?u2 MBOX0_STATUS_EMPTY !! (k' + j) = 0"
    proof
      fix k'
      from Suc.prems(1) obtain j where "inputs u MBOX0_STATUS_EMPTY !! (Suc k + k' + j) = 0"
        by blast
      then have "inputs ?u2 MBOX0_STATUS_EMPTY !! (k' + j) = 0"
        by (simp add: inputs_consume sdrop_snth add.assoc)
      then show "\<exists>j. inputs ?u2 MBOX0_STATUS_EMPTY !! (k' + j) = 0" ..
    qed
    have dat: "inputs ?u2 MBOX0_DATA !! n = w"
      using Suc.prems(2) by (simp add: inputs_consume)
    from Suc.IH[OF fair dat] obtain t where "while_loop ?c ?b ?u2 = Some t" ..
    moreover have "while_loop ?c ?b u = while_loop ?c ?b ?u2"
      using False k by (simp add: while_loop_True poll_def hw_read_consume)
    ultimately show ?thesis by simp
  qed
qed

lemma mbox_call_returns:
  assumes full: "\<exists>m. inputs s MBOX0_STATUS_FULL !! m = 0"
    and empty: "\<forall>k. \<exists>j. inputs s MBOX0_STATUS_EMPTY !! (k + j) = 0"
    and dat: "\<exists>n. inputs s MBOX0_DATA !! n = chan OR addr"
  shows "\<exists>t. mbox_call chan addr s = Some t"
proof -
  let ?w = "chan OR addr"
  from full have "\<exists>n. \<not> (inputs s MBOX0_STATUS_FULL !! n \<noteq> 0)" by simp
  from spin_while_terminates[OF this] obtain m
    where m: "spin_while MBOX0_STATUS_FULL (\<lambda>v. v \<noteq> 0) s = Some (consume MBOX0_STATUS_FULL (Suc m) s)"
    by blast
  let ?s2 = "hw_write MBOX1_DATA ?w (consume MBOX0_STATUS_FULL (Suc m) s)"
  from empty obtain j where "inputs s MBOX0_STATUS_EMPTY !! (0 + j) = 0" by blast
  then have "\<exists>n. \<not> (inputs (memory_barrier ?s2) MBOX0_STATUS_EMPTY !! n \<noteq> 0)"
    by (auto simp: inputs_consume)
  from spin_while_terminates[OF this] obtain k
    where k: "spin_while MBOX0_STATUS_EMPTY (\<lambda>v. v \<noteq> 0) (memory_barrier ?s2)
        = Some (consume MBOX0_STATUS_EMPTY (Suc k) (memory_barrier ?s2))"
    by blast
  let ?s3 = "consume MBOX0_STATUS_EMPTY (Suc k) (memory_barrier ?s2)"
  have fair: "\<forall>k'. \<exists>j. inputs ?s3 MBOX0_STATUS_EMPTY !! (k' + j) = 0"
  proof
    fix k'
    from empty obtain j where "inputs s MBOX0_STATUS_EMPTY !! (Suc k + k' + j) = 0" by blast
    then have "inputs ?s3 MBOX0_STATUS_EMPTY !! (k' + j) = 0"
      by (simp add: inputs_consume sdrop_snth add.assoc)
    then show "\<exists>j. inputs ?s3 MBOX0_STATUS_EMPTY !! (k' + j) = 0" ..
  qed
  from dat obtain n where "inputs ?s3 MBOX0_DATA !! n = ?w" by (auto simp: inputs_consume)
  from mbox_wait_returns[OF fair this] m k show ?thesis
    by (simp add: mbox_call_def do_while_def Let_def)
qed

lemma mbox_call_ready:
  assumes "shd (inputs s MBOX0_STATUS_FULL) = 0" and "shd (inputs s MBOX0_STATUS_EMPTY) = 0"
    and "shd (inputs s MBOX0_DATA) = chan OR addr"
  shows "mbox_call chan addr s =
           Some (consume MBOX0_DATA 1 (consume MBOX0_STATUS_EMPTY 1 (memory_barrier
             (hw_write MBOX1_DATA (chan OR addr) (consume MBOX0_STATUS_FULL 1 s)))))"
proof -
  let ?s2 = "hw_write MBOX1_DATA (chan OR addr) (consume MBOX0_STATUS_FULL 1 s)"
  let ?s3 = "consume MBOX0_STATUS_EMPTY 1 (memory_barrier ?s2)"
  have a: "spin_while MBOX0_STATUS_FULL (\<lambda>v. v \<noteq> 0) s = Some (consume MBOX0_STATUS_FULL 1 s)"
    using spin_while_steps[of 0 "\<lambda>v. v \<noteq> 0" s MBOX0_STATUS_FULL] assms(1) by simp
  have b: "spin_while MBOX0_STATUS_EMPTY (\<lambda>v. v \<noteq> 0) (memory_barrier ?s2) = Some ?s3"
    using spin_while_steps[of 0 "\<lambda>v. v \<noteq> 0" "memory_barrier ?s2" MBOX0_STATUS_EMPTY] assms(2)
    by (simp add: inputs_consume)
  have c: "while_loop (poll MBOX0_DATA (\<lambda>v. v \<noteq> chan OR addr))
      (\<lambda>s. spin_while MBOX0_STATUS_EMPTY (\<lambda>v. v \<noteq> 0) (memory_barrier s)) ?s3
      = Some (consume MBOX0_DATA 1 ?s3)"
    using assms(3) by (simp add: while_loop_False poll_def hw_read_consume inputs_consume)
  show ?thesis unfolding mbox_call_def Let_def do_while_def
    by (simp only: a b c Option.bind.simps)
qed

lemma mbox_call_log:
  assumes "mbox_call chan addr s = Some t"
  obtains L where "log t = log s @ L" and "writes_of MBOX1_DATA L = [chan OR addr]"
  using mbox_call_SomeD[OF assms] by blast

lemma mbox_property_request_data:
  "mbox_property_request tagid (m\<lparr>data := d\<rparr>) =
     \<lparr>header_buffer_size = of_nat (sizeof_mbox_property_struct (length d)),
      header_code = PROP_REQUEST, tag_tag = tagid, tag_buffer_size = of_nat (4 * length d),
      tag_response_length = take_bit 31 (of_nat (4 * length d)), tag_has_response = 0,
      data = d, end_word = 0\<rparr>"
  by (cases m) (simp add: mbox_property_request_def)

lemma log_suffix_rel_poll:
  assumes "log_suffix_rel P P' x x'"
  shows "fst (poll r p x') = fst (poll r p x) \<and>
         log_suffix_rel P P' (snd (poll r p x)) (snd (poll r p x'))"
  using assms by (auto simp: log_suffix_rel_def poll_def hw_read_def)

lemma log_suffix_rel_wait:
  assumes "log_suffix_rel P P' x x'"
    and "spin_while r p (memory_barrier x) = Some y"
  shows "\<exists>y'. spin_while r p (memory_barrier x') = Some y' \<and> log_suffix_rel P P' y y'"
proof -
  from assms(1) have i: "inputs x' = inputs x" by (simp add: log_suffix_rel_def)
  from assms(2) obtain n where n: "\<forall>i<n. p (inputs (memory_barrier x) r !! i)"
    "\<not> p (inputs (memory_barrier x) r !! n)" "y = consume r (Suc n) (memory_barrier x)"
    by (rule spin_while_SomeD)
  from n(1,2) have "spin_while r p (memory_barrier x') = Some (consume r (Suc n) (memory_barrier x'))"
    by (intro spin_while_steps) (simp_all add: i)
  moreover have "log_suffix_rel P P' y (consume r (Suc n) (memory_barrier x'))"
    using assms(1) unfolding n(3)
    by (auto simp: log_suffix_rel_def inputs_consume log_consume simp del: stake.simps sdrop.simps)
  ultimately show ?thesis by blast
qed

lemma pop_until_imp_do_while:
  assumes "pop_until w y = Some t"
  shows "do_while (\<lambda>s. spin_while MBOX0_STATUS_EMPTY (\<lambda>v. v \<noteq> 0) (memory_barrier s))
           (poll MBOX0_DATA (\<lambda>v. v \<noteq> w)) y = Some t"
  using assms
proof (induction rule: pop_until.raw_induct[rotated 1, consumes 1])
  case (1 pop w y t)
  let ?b = "\<lambda>s. spin_while MBOX0_STATUS_EMPTY (\<lambda>v. v \<noteq> 0) (memory_barrier s)"
  let ?c = "poll MBOX0_DATA (\<lambda>v. v \<noteq> w)"
  from 1(2) obtain u where u: "?b y = Some u"
    and rest: "(if fst (hw_read MBOX0_DATA u) = w then Some (snd (hw_read MBOX0_DATA u))
                else pop w (snd (hw_read MBOX0_DATA u))) = Some t"
    by (auto simp: mbox_read_def bind_eq_Some_conv)
  have "while_loop ?c ?b u = Some t"
  proof (cases "fst (hw_read MBOX0_DATA u) = w")
    case True
    with rest show ?thesis by (simp add: while_loop_False poll_def)
  next
    case False
    with rest have "pop w (snd (hw_read MBOX0_DATA u)) = Some t" by simp
    from 1(1)[OF this] have "do_while ?b ?c (snd (hw_read MBOX0_DATA u)) = Some t" .
    with False show ?thesis by (simp add: while_loop_True poll_def do_while_def)
  qed
  with u show ?case by (simp add: do_while_def)
qed

lemma while_loop_imp_pop_until_aux:
  assumes "while_loop c b u = Some t"
  shows "c = poll MBOX0_DATA (\<lambda>v. v \<noteq> w) \<longrightarrow>
         b = (\<lambda>s. spin_while MBOX0_STATUS_EMPTY (\<lambda>v. v \<noteq> 0) (memory_barrier s)) \<longrightarrow>
         (\<forall>y. b y = Some u \<longrightarrow> pop_until w y = Some t)"
  using assms
proof (induction rule: while_loop.raw_induct[rotated 1, consumes 1])
  case (1 wl c b u t)
  show ?case
  proof (intro impI allI)
    fix y
    assume c: "c = poll MBOX0_DATA (\<lambda>v. v \<noteq> w)"
      and b: "b = (\<lambda>s. spin_while MBOX0_STATUS_EMPTY (\<lambda>v. v \<noteq> 0) (memory_barrier s))"
      and y: "b y = Some u"
    have rd: "mbox_read y = Some (hw_read MBOX0_DATA u)"
      using y by (simp add: mbox_read_def b)
    show "pop_until w y = Some t"
    proof (cases "fst (hw_read MBOX0_DATA u) = w")
      case True
      with 1(2) have "t = snd (hw_read MBOX0_DATA u)" by (simp add: c poll_def)
      with True rd show ?thesis by (subst pop_until.simps) simp
    next
      case False
      with 1(2) obtain u' where u': "b (snd (hw_read MBOX0_DATA u)) = Some u'"
        and wl: "wl c b u' = Some t"
        by (auto simp: c poll_def bind_eq_Some_conv)
      from 1(1)[OF wl] c b u' have "pop_until w (snd (hw_read MBOX0_DATA u)) = Some t" by blast
      with False rd show ?thesis by (subst pop_until.simps) simp
    qed
  qed
qed

lemma pop_until_eq_do_while:
  "pop_until w y =
     do_while (\<lambda>s. spin_while MBOX0_STATUS_EMPTY (\<lambda>v. v \<noteq> 0) (memory_barrier s))
       (poll MBOX0_DATA (\<lambda>v. v \<noteq> w)) y"
proof (cases "pop_until w y")
  case (Some t)
  with pop_until_imp_do_while[OF Some] show ?thesis by simp
next
  case None
  let ?b = "\<lambda>s. spin_while MBOX0_STATUS_EMPTY (\<lambda>v. v \<noteq> 0) (memory_barrier s)"
  let ?c = "poll MBOX0_DATA (\<lambda>v. v \<noteq> w)"
  show ?thesis
  proof (cases "do_while ?b ?c y")
    case None
    with \<open>pop_until w y = None\<close> show ?thesis by simp
  next
    case (Some t)
    then obtain u where u: "?b y = Some u" and wl: "while_loop ?c ?b u = Some t"
      by (auto simp: do_while_def bind_eq_Some_conv)
    from while_loop_imp_pop_until_aux[OF wl, of w] u have "pop_until w y = Some t" by blast
    with None show ?thesis by simp
  qed
qed


lemma mbox_call_unfold:
  "mbox_call chan addr s =
     Option.bind (spin_while MBOX0_STATUS_FULL (\<lambda>v. v \<noteq> 0) s) (\<lambda>s1.
       Option.bind (spin_while MBOX0_STATUS_EMPTY (\<lambda>v. v \<noteq> 0)
           (memory_barrier (hw_write MBOX1_DATA (chan OR addr) s1)))
         (while_loop (poll MBOX0_DATA (\<lambda>v. v \<noteq> chan OR addr))
           (\<lambda>s. spin_while MBOX0_STATUS_EMPTY (\<lambda>v. v \<noteq> 0) (memory_barrier s))))"
  by (simp add: mbox_call_def Let_def do_while_def)

lemma mbox_call_spec_unfold:
  "mbox_call_spec chan addr s =
     Option.bind (spin_while MBOX0_STATUS_FULL (\<lambda>v. v \<noteq> 0) s) (\<lambda>s1.
       Option.bind (spin_while MBOX0_STATUS_EMPTY (\<lambda>v. v \<noteq> 0)
           (memory_barrier (memory_barrier (hw_write MBOX1_DATA (chan OR addr) s1))))
         (while_loop (poll MBOX0_DATA (\<lambda>v. v \<noteq> chan OR addr))
           (\<lambda>s. spin_while MBOX0_STATUS_EMPTY (\<lambda>v. v \<noteq> 0) (memory_barrier s))))"
  by (simp add: mbox_call_spec_def mbox_write_def pop_until_eq_do_while do_while_def)

text \<open>
  The two runs, started after the write of the word, one with the extra barrier of
  \<open>mbox_write\<close>: either both return or neither does, and they add the same actions.
\<close>

lemma pop_loop_extra_barrier:
  fixes x :: hw
  defines "b \<equiv> (\<lambda>s. spin_while MBOX0_STATUS_EMPTY (\<lambda>v. v \<noteq> 0) (memory_barrier s))"
  assumes rel: "inputs x' = inputs x" "log x = P" "log x' = P'"
    and run: "Option.bind (b x) (while_loop (poll MBOX0_DATA (\<lambda>v. v \<noteq> w)) b) = Some t"
  shows "\<exists>t' L. Option.bind (b x') (while_loop (poll MBOX0_DATA (\<lambda>v. v \<noteq> w)) b) = Some t' \<and>
           inputs t' = inputs t \<and> log t = P @ Barrier # L \<and> log t' = P' @ Barrier # L"
proof -
  let ?c = "poll MBOX0_DATA (\<lambda>v. v \<noteq> w)"
  from run obtain u where u: "b x = Some u" and wl: "while_loop ?c b u = Some t"
    by (auto simp: bind_eq_Some_conv)
  from u obtain n where n: "\<forall>i<n. inputs (memory_barrier x) MBOX0_STATUS_EMPTY !! i \<noteq> 0"
    "\<not> inputs (memory_barrier x) MBOX0_STATUS_EMPTY !! n \<noteq> 0"
    "u = consume MBOX0_STATUS_EMPTY (Suc n) (memory_barrier x)"
    unfolding b_def by (rule spin_while_SomeD)
  let ?u' = "consume MBOX0_STATUS_EMPTY (Suc n) (memory_barrier x')"
  have u': "b x' = Some ?u'"
    unfolding b_def using n(1,2) by (intro spin_while_steps) (simp_all add: rel(1))
  have r: "log_suffix_rel P P' u ?u'"
    unfolding n(3) using rel
    by (auto simp: log_suffix_rel_def inputs_consume log_consume simp del: stake.simps sdrop.simps)
  have "\<exists>t'. while_loop ?c b ?u' = Some t' \<and> log_suffix_rel P P' t t'"
  proof (rule while_loop_sim[where R = "log_suffix_rel P P'" and c' = ?c and b' = b, OF wl r])
    show "fst (?c y') = fst (?c y) \<and> log_suffix_rel P P' (snd (?c y)) (snd (?c y'))"
      if "log_suffix_rel P P' y y'" for y y'
      using that by (rule log_suffix_rel_poll)
    show "\<exists>z'. b y' = Some z' \<and> log_suffix_rel P P' z z'"
      if "log_suffix_rel P P' y y'" "b y = Some z" for y y' z
      using that unfolding b_def by (rule log_suffix_rel_wait)
  qed
  then obtain t' where "while_loop ?c b ?u' = Some t'" "log_suffix_rel P P' t t'" by blast
  with u' show ?thesis by (auto simp: log_suffix_rel_def)
qed

text \<open>A call leaves every register's stream at a later position, so a mailbox whose flags
  clear again and again and whose read FIFO delivers the awaited word again and again
  answers every call.\<close>

lemma fair_sdrop:
  assumes "\<forall>k. \<exists>j. x !! (k + j) = w"
  shows "\<forall>k. \<exists>j. sdrop a x !! (k + j) = w"
proof
  fix k
  from assms obtain j where "x !! ((a + k) + j) = w" by blast
  then have "sdrop a x !! (k + j) = w" by (simp add: sdrop_snth add.assoc del: sdrop.simps)
  then show "\<exists>j. sdrop a x !! (k + j) = w" ..
qed

lemma mbox_call_inputs:
  assumes run: "mbox_call chan addr s = Some t"
  shows "\<forall>r. \<exists>k. inputs t r = sdrop k (inputs s r)"
proof -
  define w where "w = chan OR addr"
  define b where "b = (\<lambda>s. spin_while MBOX0_STATUS_EMPTY (\<lambda>v. v \<noteq> 0) (memory_barrier s))"
  define c where "c = poll MBOX0_DATA (\<lambda>v. v \<noteq> w)"
  define I where "I u \<longleftrightarrow> (\<forall>r. \<exists>k. inputs u r = sdrop k (inputs s r))" for u :: hw
  have cons: "I (consume r k u)" if "I u" for r k u
    unfolding I_def
  proof
    fix r'
    from that obtain j where j: "inputs u r' = sdrop j (inputs s r')" unfolding I_def by blast
    show "\<exists>k'. inputs (consume r k u) r' = sdrop k' (inputs s r')"
    proof (cases "r' = r")
      case True
      with j have "inputs (consume r k u) r' = sdrop (j + k) (inputs s r')"
        by (simp add: inputs_consume del: sdrop.simps)
      then show ?thesis ..
    next
      case False
      with j have "inputs (consume r k u) r' = sdrop j (inputs s r')"
        by (simp add: inputs_consume del: sdrop.simps)
      then show ?thesis ..
    qed
  qed
  have same: "I u'" if "I u" "inputs u' = inputs u" for u u'
    using that unfolding I_def by simp
  have I0: "I s" unfolding I_def by (intro allI exI[of _ 0]) simp
  from run obtain s1 where s1: "spin_while MBOX0_STATUS_FULL (\<lambda>v. v \<noteq> 0) s = Some s1"
    and dw: "do_while b c (hw_write MBOX1_DATA w s1) = Some t"
    by (auto simp: mbox_call_def Let_def bind_eq_Some_conv w_def b_def c_def)
  from dw obtain s3 where s3: "b (hw_write MBOX1_DATA w s1) = Some s3"
    and wl: "while_loop c b s3 = Some t"
    by (auto simp: do_while_def bind_eq_Some_conv)
  have b_step: "I u'" if "I u" "b u = Some u'" for u u'
  proof -
    from that(2) obtain j where "u' = consume MBOX0_STATUS_EMPTY (Suc j) (memory_barrier u)"
      unfolding b_def by (rule spin_while_SomeD)
    moreover have "I (memory_barrier u)" using that(1) by (rule same) simp
    ultimately show ?thesis using cons by simp
  qed
  have c_step: "I (snd (c u))" if "I u" for u
    using cons[OF that, of MBOX0_DATA 1] by (simp add: c_def poll_def hw_read_consume)
  from s1 obtain m where "s1 = consume MBOX0_STATUS_FULL (Suc m) s" by (rule spin_while_SomeD)
  with cons[OF I0] have "I s1" by simp
  then have "I (hw_write MBOX1_DATA w s1)" by (rule same) simp
  then have I3: "I s3" using s3 by (rule b_step)
  have "\<exists>u. I u \<and> \<not> fst (c u) \<and> t = snd (c u)"
    by (rule while_loop_rule[where I = I, OF wl I3]) (rule b_step[OF c_step])
  then show ?thesis using c_step unfolding I_def by blast
qed

lemma mbox_call_fair:
  assumes "\<forall>k. \<exists>j. inputs s MBOX0_STATUS_FULL !! (k + j) = 0"
    and "\<forall>k. \<exists>j. inputs s MBOX0_STATUS_EMPTY !! (k + j) = 0"
    and "\<forall>k. \<exists>j. inputs s MBOX0_DATA !! (k + j) = chan OR addr"
  shows "\<exists>t. mbox_call chan addr s = Some t \<and>
           (\<forall>k. \<exists>j. inputs t MBOX0_STATUS_FULL !! (k + j) = 0) \<and>
           (\<forall>k. \<exists>j. inputs t MBOX0_STATUS_EMPTY !! (k + j) = 0) \<and>
           (\<forall>k. \<exists>j. inputs t MBOX0_DATA !! (k + j) = chan OR addr)"
proof -
  from assms(1) obtain m where "inputs s MBOX0_STATUS_FULL !! (0 + m) = 0" by blast
  then have full: "\<exists>m. inputs s MBOX0_STATUS_FULL !! m = 0" by auto
  from assms(3) obtain n where "inputs s MBOX0_DATA !! (0 + n) = chan OR addr" by blast
  then have dat: "\<exists>n. inputs s MBOX0_DATA !! n = chan OR addr" by auto
  from mbox_call_returns[OF full assms(2) dat] obtain t where t: "mbox_call chan addr s = Some t" ..
  from mbox_call_inputs[OF t] obtain a b c where
    "inputs t MBOX0_STATUS_FULL = sdrop a (inputs s MBOX0_STATUS_FULL)"
    "inputs t MBOX0_STATUS_EMPTY = sdrop b (inputs s MBOX0_STATUS_EMPTY)"
    "inputs t MBOX0_DATA = sdrop c (inputs s MBOX0_DATA)"
    by metis
  with t show ?thesis
    using fair_sdrop[OF assms(1), of a] fair_sdrop[OF assms(2), of b] fair_sdrop[OF assms(3), of c]
    by simp
qed

lemma mbox_get_clock_returns:
  assumes "\<forall>k. \<exists>j. inputs s MBOX0_STATUS_FULL !! (k + j) = 0"
    and "\<forall>k. \<exists>j. inputs s MBOX0_STATUS_EMPTY !! (k + j) = 0"
    and "\<forall>k. \<exists>j. inputs s MBOX0_DATA !! (k + j) = chan OR addr"
  shows "\<exists>r fw' t. mbox_get_clock chan addr clock (mbox, fw, s) = Some (r, fw', t)"
proof -
  from mbox_call_fair[OF assms] obtain s1 where s1: "mbox_call chan addr s = Some s1"
    and fair1: "\<forall>k. \<exists>j. inputs s1 MBOX0_STATUS_FULL !! (k + j) = 0"
      "\<forall>k. \<exists>j. inputs s1 MBOX0_STATUS_EMPTY !! (k + j) = 0"
      "\<forall>k. \<exists>j. inputs s1 MBOX0_DATA !! (k + j) = chan OR addr"
    by blast
  from mbox_call_fair[OF fair1] obtain s2 where s2: "mbox_call chan addr s1 = Some s2"
    by blast
  show ?thesis
    by (simp add: mbox_get_clock_def mbox_property_call_def Let_def s1 s2)
qed

text \<open>
  C2. \<open>mbox_call\<close> waits on the full flag, pushes one word, \<open>chan OR addr\<close>, into the write
  FIFO, and returns only after reading from the read FIFO a word equal to the word it
  pushed; that read is its last access. The words it has read are the words of the FIFO
  up to the first one equal to the pushed word, and the FIFO is left at the word after
  it. Fed non-matching words followed by the matching word, it returns, whatever the
  non-matching words are, having consumed them and the match, and nothing more.
\<close>

theorem mbox_call_returns_on_match:
  "(mbox_call chan addr s = Some t \<longrightarrow>
      (\<exists>n w fs G. new_log s t = map (Rd MBOX0_STATUS_FULL) fs @ Wr MBOX1_DATA w # G \<and>
           w = chan OR addr \<and> writes_of MBOX1_DATA G = [] \<and> last G = Rd MBOX0_DATA w \<and>
           reads_of MBOX0_DATA G = stake (Suc n) (inputs s MBOX0_DATA) \<and>
           inputs s MBOX0_DATA !! n = w \<and>
           (\<forall>i<n. inputs s MBOX0_DATA !! i \<noteq> w) \<and>
           inputs t MBOX0_DATA = sdrop (Suc n) (inputs s MBOX0_DATA))) \<and>
   ((\<exists>m. inputs s MBOX0_STATUS_FULL !! m = 0) \<and>
    (\<forall>k. \<exists>j. inputs s MBOX0_STATUS_EMPTY !! (k + j) = 0) \<and>
    inputs s MBOX0_DATA = junk @- ((chan OR addr) ## rest) \<and> chan OR addr \<notin> set junk \<longrightarrow>
      (\<exists>t' fs G. mbox_call chan addr s = Some t' \<and>
            new_log s t' = map (Rd MBOX0_STATUS_FULL) fs @ Wr MBOX1_DATA (chan OR addr) # G \<and>
            writes_of MBOX1_DATA G = [] \<and> last G = Rd MBOX0_DATA (chan OR addr) \<and>
            reads_of MBOX0_DATA G = junk @ [chan OR addr] \<and>
            inputs t' MBOX0_DATA = rest))"
proof (intro conjI impI)
  assume "mbox_call chan addr s = Some t"
  from mbox_call_SomeD[OF this] obtain n L fs G where
    "inputs s MBOX0_DATA !! n = chan OR addr" "\<forall>i<n. inputs s MBOX0_DATA !! i \<noteq> chan OR addr"
    "inputs t MBOX0_DATA = sdrop (Suc n) (inputs s MBOX0_DATA)" "log t = log s @ L"
    "L = map (Rd MBOX0_STATUS_FULL) fs @ Wr MBOX1_DATA (chan OR addr) # G"
    "reads_of MBOX0_DATA G = stake (Suc n) (inputs s MBOX0_DATA)"
    "writes_of MBOX1_DATA G = []" "last G = Rd MBOX0_DATA (chan OR addr)"
    by blast
  then have "new_log s t = map (Rd MBOX0_STATUS_FULL) fs @ Wr MBOX1_DATA (chan OR addr) # G \<and>
           chan OR addr = chan OR addr \<and> writes_of MBOX1_DATA G = [] \<and>
           last G = Rd MBOX0_DATA (chan OR addr) \<and>
           reads_of MBOX0_DATA G = stake (Suc n) (inputs s MBOX0_DATA) \<and>
           inputs s MBOX0_DATA !! n = chan OR addr \<and>
           (\<forall>i<n. inputs s MBOX0_DATA !! i \<noteq> chan OR addr) \<and>
           inputs t MBOX0_DATA = sdrop (Suc n) (inputs s MBOX0_DATA)"
    by (simp del: stake.simps sdrop.simps)
  then show "\<exists>n w fs G. new_log s t = map (Rd MBOX0_STATUS_FULL) fs @ Wr MBOX1_DATA w # G \<and>
           w = chan OR addr \<and> writes_of MBOX1_DATA G = [] \<and> last G = Rd MBOX0_DATA w \<and>
           reads_of MBOX0_DATA G = stake (Suc n) (inputs s MBOX0_DATA) \<and>
           inputs s MBOX0_DATA !! n = w \<and>
           (\<forall>i<n. inputs s MBOX0_DATA !! i \<noteq> w) \<and>
           inputs t MBOX0_DATA = sdrop (Suc n) (inputs s MBOX0_DATA)"
    by (intro exI)
next
  let ?w = "chan OR addr"
  assume a: "(\<exists>m. inputs s MBOX0_STATUS_FULL !! m = 0) \<and>
    (\<forall>k. \<exists>j. inputs s MBOX0_STATUS_EMPTY !! (k + j) = 0) \<and>
    inputs s MBOX0_DATA = junk @- (?w ## rest) \<and> ?w \<notin> set junk"
  then have d: "inputs s MBOX0_DATA = junk @- (?w ## rest)" and nj: "?w \<notin> set junk" by simp_all
  have at: "inputs s MBOX0_DATA !! length junk = ?w" by (simp add: d)
  have before: "inputs s MBOX0_DATA !! i \<noteq> ?w" if "i < length junk" for i
  proof -
    from that have "junk ! i \<in> set junk" by (rule nth_mem)
    with nj have "junk ! i \<noteq> ?w" by metis
    with that show ?thesis by (simp add: d)
  qed
  from a at have "\<exists>t'. mbox_call chan addr s = Some t'" by (intro mbox_call_returns) blast+
  then obtain t' where run: "mbox_call chan addr s = Some t'" ..
  from mbox_call_SomeD[OF this] obtain n L fs G where n:
    "inputs s MBOX0_DATA !! n = ?w" "\<forall>i<n. inputs s MBOX0_DATA !! i \<noteq> ?w"
    "inputs t' MBOX0_DATA = sdrop (Suc n) (inputs s MBOX0_DATA)" "log t' = log s @ L"
    "L = map (Rd MBOX0_STATUS_FULL) fs @ Wr MBOX1_DATA ?w # G"
    "reads_of MBOX0_DATA G = stake (Suc n) (inputs s MBOX0_DATA)"
    "writes_of MBOX1_DATA G = []" "last G = Rd MBOX0_DATA ?w"
    by blast
  have "n = length junk"
  proof (rule ccontr)
    assume "n \<noteq> length junk"
    then consider "n < length junk" | "length junk < n" by linarith
    then show False using before n(1) n(2) at by cases auto
  qed
  with n(3,6) have "reads_of MBOX0_DATA G = junk @ [?w]"
    "inputs t' MBOX0_DATA = rest"
    by (simp_all add: d stake_shift sdrop_shift del: stake.simps sdrop.simps) simp_all
  moreover from n(4,5) have "new_log s t' = map (Rd MBOX0_STATUS_FULL) fs @ Wr MBOX1_DATA ?w # G"
    by simp
  ultimately show "\<exists>t' fs G. mbox_call chan addr s = Some t' \<and>
            new_log s t' = map (Rd MBOX0_STATUS_FULL) fs @ Wr MBOX1_DATA ?w # G \<and>
            writes_of MBOX1_DATA G = [] \<and> last G = Rd MBOX0_DATA ?w \<and>
            reads_of MBOX0_DATA G = junk @ [?w] \<and> inputs t' MBOX0_DATA = rest"
    using run n(7,8) by blast
qed

text \<open>On \<open>mbox_env\<close>, with channel 8 and the buffer at \<open>0x40\<close>.\<close>

theorem mbox_call_returns_on_match_witness:
  "\<exists>t fs G. mbox_call 8 0x40 mbox_env = Some t \<and>
       new_log mbox_env t = map (Rd MBOX0_STATUS_FULL) fs @ Wr MBOX1_DATA 0x48 # G \<and>
       writes_of MBOX1_DATA G = [] \<and> last G = Rd MBOX0_DATA 0x48 \<and>
       reads_of MBOX0_DATA G = [0x11, 0x22, 0x48] \<and>
       inputs t MBOX0_DATA = sconst 0"
proof -
  have "(\<exists>m. inputs mbox_env MBOX0_STATUS_FULL !! m = 0) \<and>
    (\<forall>k. \<exists>j. inputs mbox_env MBOX0_STATUS_EMPTY !! (k + j) = 0) \<and>
    inputs mbox_env MBOX0_DATA = [0x11, 0x22] @- ((8 OR 0x40) ## sconst 0) \<and>
    8 OR 0x40 \<notin> set [0x11, 0x22 :: u32]"
    by (simp add: mbox_env_def)
  with mbox_call_returns_on_match[of 8 "0x40" mbox_env _ "[0x11, 0x22]" "sconst 0"]
  show ?thesis by simp
qed

text \<open>
  C6, as the code has it. \<open>mbox_call\<close> and "\<open>mbox_write\<close>, then \<open>mbox_read\<close> until the
  word read is the word written" return in the same environments and leave the same
  inputs. They perform the same register accesses in the same order; the only difference
  is that \<open>mbox_write\<close> ends with a barrier and the first \<open>mbox_read\<close> starts with one,
  where \<open>mbox_call\<close> issues a single barrier between the write and the first poll.
\<close>

theorem mbox_call_is_push_pop_less_one_barrier:
  "rel_option
     (\<lambda>t t'. inputs t' = inputs t \<and>
        (\<exists>vs L. new_log s t =
                   map (Rd MBOX0_STATUS_FULL) vs @ [Wr MBOX1_DATA (chan OR addr), Barrier] @ L \<and>
                 new_log s t' =
                   map (Rd MBOX0_STATUS_FULL) vs @ [Wr MBOX1_DATA (chan OR addr), Barrier, Barrier] @ L))
     (mbox_call chan addr s) (mbox_call_spec chan addr s)"
proof (cases "spin_while MBOX0_STATUS_FULL (\<lambda>v. v \<noteq> 0) s")
  case None
  then show ?thesis by (simp add: mbox_call_unfold mbox_call_spec_unfold)
next
  case (Some s1)
  let ?w = "chan OR addr"
  let ?b = "\<lambda>s. spin_while MBOX0_STATUS_EMPTY (\<lambda>v. v \<noteq> 0) (memory_barrier s)"
  let ?c = "poll MBOX0_DATA (\<lambda>v. v \<noteq> ?w)"
  let ?x = "hw_write MBOX1_DATA ?w s1"
  let ?x' = "memory_barrier ?x"
  from Some obtain m where m: "s1 = consume MBOX0_STATUS_FULL (Suc m) s"
    by (rule spin_while_SomeD)
  define vs where "vs = stake (Suc m) (inputs s MBOX0_STATUS_FULL)"
  have lx: "log ?x = log s @ map (Rd MBOX0_STATUS_FULL) vs @ [Wr MBOX1_DATA ?w]"
    and lx': "log ?x' = log s @ map (Rd MBOX0_STATUS_FULL) vs @ [Wr MBOX1_DATA ?w, Barrier]"
    by (simp_all add: m log_consume vs_def del: stake.simps)
  have call: "mbox_call chan addr s = Option.bind (?b ?x) (while_loop ?c ?b)"
    and spec: "mbox_call_spec chan addr s = Option.bind (?b ?x') (while_loop ?c ?b)"
    using Some by (simp_all add: mbox_call_unfold mbox_call_spec_unfold)
  show ?thesis
  proof (cases "mbox_call chan addr s")
    case (Some t)
    from pop_loop_extra_barrier[OF _ lx lx' Some[unfolded call]] obtain t' L
      where "Option.bind (?b ?x') (while_loop ?c ?b) = Some t'" "inputs t' = inputs t"
        "log t = (log s @ map (Rd MBOX0_STATUS_FULL) vs @ [Wr MBOX1_DATA ?w]) @ Barrier # L"
        "log t' = (log s @ map (Rd MBOX0_STATUS_FULL) vs @ [Wr MBOX1_DATA ?w, Barrier]) @ Barrier # L"
      by auto
    then show ?thesis unfolding Some spec
      by (auto simp: new_log_def intro!: exI[of _ vs] exI[of _ L])
  next
    case None
    have "mbox_call_spec chan addr s = None"
    proof (rule ccontr)
      assume "mbox_call_spec chan addr s \<noteq> None"
      then obtain t' where t': "Option.bind (?b ?x') (while_loop ?c ?b) = Some t'"
        unfolding spec by auto
      from pop_loop_extra_barrier[OF _ lx' lx t']
      have "\<exists>t. Option.bind (?b ?x) (while_loop ?c ?b) = Some t" by auto
      with None show False unfolding call by simp
    qed
    with None show ?thesis by simp
  qed
qed

theorem mbox_call_omits_a_barrier:
  "map_option log (mbox_call 8 0x40 mbox_ready) =
     Some [Rd MBOX0_STATUS_FULL 0, Wr MBOX1_DATA 0x48, Barrier,
           Rd MBOX0_STATUS_EMPTY 0, Rd MBOX0_DATA 0x48] \<and>
   map_option log (mbox_call_spec 8 0x40 mbox_ready) =
     Some [Rd MBOX0_STATUS_FULL 0, Wr MBOX1_DATA 0x48, Barrier, Barrier,
           Rd MBOX0_STATUS_EMPTY 0, Rd MBOX0_DATA 0x48]"
proof -
  have f: "spin_while MBOX0_STATUS_FULL (\<lambda>v. v \<noteq> 0) mbox_ready
             = Some (consume MBOX0_STATUS_FULL (Suc 0) mbox_ready)"
    by (rule spin_while_steps) (simp_all add: mbox_ready_def)
  have e: "spin_while MBOX0_STATUS_EMPTY (\<lambda>v. v \<noteq> 0) (memory_barrier x)
             = Some (consume MBOX0_STATUS_EMPTY (Suc 0) (memory_barrier x))"
    if "inputs x MBOX0_STATUS_EMPTY = sconst 0" for x
    by (rule spin_while_steps) (simp_all add: that)
  have d: "while_loop (poll MBOX0_DATA (\<lambda>v. v \<noteq> 0x48)) b x = Some (snd (hw_read MBOX0_DATA x))"
    if "inputs x MBOX0_DATA = sconst 0x48" for x b
    by (simp add: while_loop_False poll_def hw_read_def that)
  have i: "inputs mbox_ready = (\<lambda>r. sconst 0)(MBOX0_DATA := sconst 0x48)"
    and l: "log mbox_ready = []"
    by (simp_all add: mbox_ready_def)
  show ?thesis
    by (simp add: mbox_call_unfold mbox_call_spec_unfold f e d inputs_consume log_consume
        hw_read_def i l)
qed

section \<open>The clock property calls\<close>

text \<open>
  C9. No client of the property call looks at the status code. Let two firmwares write
  back the same data words to every request and differ in anything else they write, the
  header code word (success or error sentinel) included. Then \<open>mbox_get_clock\<close> and
  \<open>mbox_get_clock_measured\<close> return the same value and leave the hardware in the same
  state, and so does \<open>mbox_set_clock\<close>.
\<close>

theorem clock_calls_ignore_status_code:
  assumes "\<forall>n m. data ((fwA !! n) m) = data ((fwB !! n) m)"
  shows "map_option (\<lambda>(r, fw, t). (r, t)) (mbox_get_clock chan addr clock (mbox, fwA, s)) =
         map_option (\<lambda>(r, fw, t). (r, t)) (mbox_get_clock chan addr clock (mbox, fwB, s)) \<and>
         map_option (\<lambda>(r, fw, t). (r, t)) (mbox_get_clock_measured chan addr clock (mbox, fwA, s)) =
         map_option (\<lambda>(r, fw, t). (r, t)) (mbox_get_clock_measured chan addr clock (mbox, fwB, s)) \<and>
         map_option snd (mbox_set_clock chan addr clock freq (mbox, fwA, s)) =
         map_option snd (mbox_set_clock chan addr clock freq (mbox, fwB, s))"
proof -
  have h0: "data (shd fwA m) = data (shd fwB m)" for m
    using assms[rule_format, of 0 m] by simp
  have h1: "data (shd (stl fwA) m) = data (shd (stl fwB) m)" for m
    using assms[rule_format, of 1 m] by simp
  have get: "map_option (\<lambda>(r, fw, t). (r, t)) (mbox_get_clock chan addr clock (mbox, fwA, s)) =
         map_option (\<lambda>(r, fw, t). (r, t)) (mbox_get_clock chan addr clock (mbox, fwB, s))"
  proof (cases "mbox_call chan addr s")
    case None
    then show ?thesis by (simp add: mbox_get_clock_def mbox_property_call_def)
  next
    case (Some s1)
    then show ?thesis
      by (cases "mbox_call chan addr s1")
        (simp_all add: mbox_get_clock_def mbox_property_call_def mbox_property_request_data
          h0 h1 Let_def)
  qed
  have meas: "map_option (\<lambda>(r, fw, t). (r, t)) (mbox_get_clock_measured chan addr clock (mbox, fwA, s)) =
         map_option (\<lambda>(r, fw, t). (r, t)) (mbox_get_clock_measured chan addr clock (mbox, fwB, s))"
    by (cases "mbox_call chan addr s")
      (simp_all add: mbox_get_clock_measured_def mbox_property_call_def
        mbox_property_request_data h0 Let_def)
  have set: "map_option snd (mbox_set_clock chan addr clock freq (mbox, fwA, s)) =
         map_option snd (mbox_set_clock chan addr clock freq (mbox, fwB, s))"
  proof (cases "mbox_call chan addr s")
    case None
    then show ?thesis by (simp add: mbox_set_clock_def mbox_property_call_def)
  next
    case (Some s1)
    then show ?thesis
      by (cases "mbox_call chan addr s1")
        (simp_all add: mbox_set_clock_def mbox_property_call_def mbox_property_request_data
          h0 h1 Let_def)
  qed
  from get meas set show ?thesis by simp
qed


theorem clock_calls_ignore_status_code_witness:
  "map_option (\<lambda>(r, fw, t). (r, t)) (mbox_get_clock 8 0x40 2 (get_clock_buffer, firmware_ok, mbox_ready)) =
   map_option (\<lambda>(r, fw, t). (r, t)) (mbox_get_clock 8 0x40 2 (get_clock_buffer, firmware_error, mbox_ready)) \<and>
   map_option (\<lambda>(r, fw, t). (r, t)) (mbox_get_clock_measured 8 0x40 2 (get_clock_buffer, firmware_ok, mbox_ready)) =
   map_option (\<lambda>(r, fw, t). (r, t)) (mbox_get_clock_measured 8 0x40 2 (get_clock_buffer, firmware_error, mbox_ready)) \<and>
   map_option snd (mbox_set_clock 8 0x40 2 3000000 (set_clock_buffer, firmware_ok, mbox_ready)) =
   map_option snd (mbox_set_clock 8 0x40 2 3000000 (set_clock_buffer, firmware_error, mbox_ready)) \<and>
   map_option fst (mbox_get_clock 8 0x40 2 (get_clock_buffer, firmware_error, mbox_ready)) = Some 700"
proof -
  have same: "\<forall>n m. data ((firmware_ok !! n) m) = data ((firmware_error !! n) m)"
    by (simp add: firmware_ok_def firmware_error_def)
  let ?s1 = "consume MBOX0_DATA 1 (consume MBOX0_STATUS_EMPTY 1 (memory_barrier
             (hw_write MBOX1_DATA (8 OR 0x40) (consume MBOX0_STATUS_FULL 1 mbox_ready))))"
  have c1: "mbox_call 8 0x40 mbox_ready = Some ?s1"
    by (rule mbox_call_ready) (simp_all add: mbox_ready_def)
  have "\<exists>s2. mbox_call 8 0x40 ?s1 = Some s2"
    by (rule exI, rule mbox_call_ready) (simp_all add: mbox_ready_def inputs_consume)
  then obtain s2 where c2: "mbox_call 8 0x40 ?s1 = Some s2" ..
  have val: "map_option fst (mbox_get_clock 8 0x40 2 (get_clock_buffer, firmware_error, mbox_ready)) = Some 700"
    using c1 c2
    by (simp add: mbox_get_clock_def mbox_property_call_def firmware_error_def Let_def)
  from clock_calls_ignore_status_code[OF same, of 8 "0x40" 2 get_clock_buffer mbox_ready]
    clock_calls_ignore_status_code[OF same, of 8 "0x40" 2 set_clock_buffer mbox_ready 3000000]
    val
  show ?thesis by simp
qed



section \<open>Blocking without timeout\<close>

lemma mbox_read_stuck:
  assumes "\<forall>n. inputs s MBOX0_STATUS_EMPTY !! n \<noteq> 0"
  shows "mbox_read s = None"
  using spin_while_stuck[OF assms, of "memory_barrier s"] by (simp add: mbox_read_def)

lemma mbox_write_stuck:
  assumes "\<forall>n. inputs s MBOX0_STATUS_FULL !! n \<noteq> 0"
  shows "mbox_write chan addr s = None"
  using spin_while_None[OF assms] by (simp add: mbox_write_def)

lemma mbox_call_stuck_full:
  assumes "\<forall>n. inputs s MBOX0_STATUS_FULL !! n \<noteq> 0"
  shows "mbox_call chan addr s = None"
  using spin_while_None[OF assms] by (simp add: mbox_call_def)

lemma mbox_call_stuck_empty:
  assumes "\<forall>n. inputs s MBOX0_STATUS_EMPTY !! n \<noteq> 0"
  shows "mbox_call chan addr s = None"
proof (cases "spin_while MBOX0_STATUS_FULL (\<lambda>v. v \<noteq> 0) s")
  case None
  then show ?thesis by (simp add: mbox_call_def)
next
  case (Some s1)
  have "inputs s1 MBOX0_STATUS_EMPTY = inputs s MBOX0_STATUS_EMPTY"
    using spin_while_inputs_other[OF Some, of MBOX0_STATUS_EMPTY] by simp
  then have "spin_while MBOX0_STATUS_EMPTY (\<lambda>v. v \<noteq> 0)
      (memory_barrier (hw_write MBOX1_DATA (chan OR addr) s1)) = None"
    by (intro spin_while_stuck[OF assms]) simp
  with Some show ?thesis by (simp add: mbox_call_def do_while_def)
qed

lemma spisl_read_stuck:
  assumes "\<forall>n. get_field CS_RXD (inputs s PCM_CS !! n) = 0"
  shows "spisl_read s = None"
  using spin_while_None[of "\<lambda>v. get_field CS_RXD v = 0" s PCM_CS] assms
  by (simp add: spisl_read_def)

text \<open>
  C8. None of the blocking operations gives up: in an environment where the polled
  status flag never changes (the read FIFO stays empty for \<open>mbox_read\<close> and \<open>mbox_call\<close>,
  the write FIFO stays full for \<open>mbox_write\<close> and \<open>mbox_call\<close>, receive-data-available
  stays clear for \<open>spisl_read\<close>), the operation never returns.
\<close>

theorem blocking_operations_never_return:
  "((\<forall>n. inputs s MBOX0_STATUS_EMPTY !! n \<noteq> 0) \<longrightarrow>
      mbox_read s = None \<and> mbox_call chan addr s = None) \<and>
   ((\<forall>n. inputs s MBOX0_STATUS_FULL !! n \<noteq> 0) \<longrightarrow>
      mbox_write chan addr s = None \<and> mbox_call chan addr s = None) \<and>
   ((\<forall>n. get_field CS_RXD (inputs s PCM_CS !! n) = 0) \<longrightarrow> spisl_read s = None)"
  using mbox_read_stuck mbox_call_stuck_empty mbox_write_stuck mbox_call_stuck_full
    spisl_read_stuck by blast

theorem blocking_operations_never_return_witness:
  "mbox_read \<lparr>inputs = \<lambda>r. sconst 1, log = []\<rparr> = None \<and>
   mbox_call 8 0x40 \<lparr>inputs = \<lambda>r. sconst 1, log = []\<rparr> = None \<and>
   mbox_write 8 0x40 \<lparr>inputs = \<lambda>r. sconst 1, log = []\<rparr> = None \<and>
   spisl_read \<lparr>inputs = \<lambda>r. sconst 0, log = []\<rparr> = None"
  using blocking_operations_never_return[of "\<lparr>inputs = \<lambda>r. sconst 1, log = []\<rparr>" 8 "0x40"]
    blocking_operations_never_return[of "\<lparr>inputs = \<lambda>r. sconst 0, log = []\<rparr>" 8 "0x40"]
  by (simp add: get_field_def)

section \<open>The SPI slave\<close>

lemma drain_rounds_Suc: "drain_rounds (Suc k) s =
    snd (hw_read PCM_FIFO (snd (hw_read PCM_CS (drain_rounds k s))))"
  by (induction k arbitrary: s) simp_all

lemma inputs_drain_rounds:
  "inputs (drain_rounds k s) =
     (inputs s)(PCM_CS := sdrop k (inputs s PCM_CS), PCM_FIFO := sdrop k (inputs s PCM_FIFO))"
proof (induction k arbitrary: s)
  case 0
  show ?case by (simp add: fun_eq_iff)
next
  case (Suc k)
  show ?case by (simp add: Suc fun_eq_iff)
qed

lemma log_drain_rounds:
  "\<exists>L. log (drain_rounds k s) = log s @ L \<and>
       reads_of PCM_FIFO L = stake k (inputs s PCM_FIFO) \<and>
       (\<forall>r. writes_of r L = []) \<and>
       (\<forall>r. r \<noteq> PCM_FIFO \<longrightarrow> r \<noteq> PCM_CS \<longrightarrow> reads_of r L = [])"
proof (induction k)
  case 0
  show ?case by simp
next
  case (Suc k)
  then obtain L where L: "log (drain_rounds k s) = log s @ L"
    "reads_of PCM_FIFO L = stake k (inputs s PCM_FIFO)" "\<forall>r. writes_of r L = []"
    "\<forall>r. r \<noteq> PCM_FIFO \<longrightarrow> r \<noteq> PCM_CS \<longrightarrow> reads_of r L = []"
    by blast
  let ?u = "drain_rounds k s"
  let ?L' = "L @ [Rd PCM_CS (shd (inputs ?u PCM_CS)), Rd PCM_FIFO (inputs s PCM_FIFO !! k)]"
  have "log (drain_rounds (Suc k) s) = log s @ ?L'"
    by (simp add: drain_rounds_Suc L(1) inputs_drain_rounds del: drain_rounds.simps)
  moreover have "reads_of PCM_FIFO ?L' = stake (Suc k) (inputs s PCM_FIFO)"
    by (simp add: L(2) stake_Suc del: stake.simps)
  moreover have "\<forall>r. writes_of r ?L' = []" using L(3) by simp
  moreover have "\<forall>r. r \<noteq> PCM_FIFO \<longrightarrow> r \<noteq> PCM_CS \<longrightarrow> reads_of r ?L' = []" using L(4) by simp
  ultimately show ?case by blast
qed

lemma drain_fifo_steps:
  "(\<forall>i<k. get_field CS_RXD (inputs s PCM_CS !! i) \<noteq> 0) \<Longrightarrow>
   get_field CS_RXD (inputs s PCM_CS !! k) = 0 \<Longrightarrow>
   drain_fifo s = Some (snd (hw_read PCM_CS (drain_rounds k s)))"
proof (induction k arbitrary: s)
  case 0
  then show ?case by (simp add: drain_fifo_def while_loop_False poll_def)
next
  case (Suc k)
  let ?s1 = "snd (hw_read PCM_FIFO (snd (hw_read PCM_CS s)))"
  from Suc.prems(1) have p0: "get_field CS_RXD (shd (inputs s PCM_CS)) \<noteq> 0"
    by (metis snth.simps(1) zero_less_Suc)
  have "drain_fifo s = drain_fifo ?s1"
    using p0 by (simp add: drain_fifo_def while_loop_True poll_def)
  also have "\<dots> = Some (snd (hw_read PCM_CS (drain_rounds k ?s1)))"
  proof (rule Suc.IH)
    show "\<forall>i<k. get_field CS_RXD (inputs ?s1 PCM_CS !! i) \<noteq> 0" using Suc.prems(1) by auto
    show "get_field CS_RXD (inputs ?s1 PCM_CS !! k) = 0" using Suc.prems(2) by simp
  qed
  finally show ?case by simp
qed

lemma drain_fifo_Some_iff:
  "drain_fifo s = Some t \<longleftrightarrow>
     (\<exists>k. (\<forall>i<k. get_field CS_RXD (inputs s PCM_CS !! i) \<noteq> 0) \<and>
          get_field CS_RXD (inputs s PCM_CS !! k) = 0 \<and>
          t = snd (hw_read PCM_CS (drain_rounds k s)))"
proof
  assume run: "drain_fifo s = Some t"
  let ?c = "poll PCM_CS (\<lambda>v. get_field CS_RXD v \<noteq> 0)"
  let ?b = "\<lambda>s. Some (snd (hw_read PCM_FIFO s))"
  define I where "I u \<longleftrightarrow> (\<exists>k. u = drain_rounds k s \<and>
      (\<forall>i<k. get_field CS_RXD (inputs s PCM_CS !! i) \<noteq> 0))" for u :: hw
  have I0: "I s" unfolding I_def by (rule exI[of _ 0]) simp
  have step: "I u'" if "I u" "fst (?c u)" "?b (snd (?c u)) = Some u'" for u u'
  proof -
    from that(1) obtain k where k: "u = drain_rounds k s"
      "\<forall>i<k. get_field CS_RXD (inputs s PCM_CS !! i) \<noteq> 0"
      unfolding I_def by blast
    from that(3) have u': "u' = drain_rounds (Suc k) s"
      by (simp add: poll_def k(1) drain_rounds_Suc del: drain_rounds.simps)
    from that(2) have "get_field CS_RXD (inputs s PCM_CS !! k) \<noteq> 0"
      by (simp add: poll_def k(1) inputs_drain_rounds)
    with k(2) have "\<forall>i<Suc k. get_field CS_RXD (inputs s PCM_CS !! i) \<noteq> 0"
      by (simp add: less_Suc_eq)
    with u' show ?thesis unfolding I_def by blast
  qed
  have "\<exists>u. I u \<and> \<not> fst (?c u) \<and> t = snd (?c u)"
  proof (rule while_loop_rule[where I = I and b = ?b and s = s])
    show "while_loop ?c ?b s = Some t" using run unfolding drain_fifo_def .
    show "I s" by (rule I0)
    show "I u'" if "I u" "fst (?c u)" "?b (snd (?c u)) = Some u'" for u u'
      using that by (rule step)
  qed
  then obtain u where u: "I u" "\<not> fst (?c u)" "t = snd (?c u)" by blast
  from u(1) obtain k where k: "u = drain_rounds k s"
    "\<forall>i<k. get_field CS_RXD (inputs s PCM_CS !! i) \<noteq> 0"
    unfolding I_def by blast
  from u(2) have "get_field CS_RXD (inputs s PCM_CS !! k) = 0"
    by (simp add: poll_def k(1) inputs_drain_rounds)
  moreover from u(3) have "t = snd (hw_read PCM_CS (drain_rounds k s))"
    by (simp add: poll_def k(1))
  ultimately show "\<exists>k. (\<forall>i<k. get_field CS_RXD (inputs s PCM_CS !! i) \<noteq> 0) \<and>
          get_field CS_RXD (inputs s PCM_CS !! k) = 0 \<and>
          t = snd (hw_read PCM_CS (drain_rounds k s))"
    using k(2) by blast
next
  assume "\<exists>k. (\<forall>i<k. get_field CS_RXD (inputs s PCM_CS !! i) \<noteq> 0) \<and>
          get_field CS_RXD (inputs s PCM_CS !! k) = 0 \<and>
          t = snd (hw_read PCM_CS (drain_rounds k s))"
  then obtain k where "\<forall>i<k. get_field CS_RXD (inputs s PCM_CS !! i) \<noteq> 0"
    "get_field CS_RXD (inputs s PCM_CS !! k) = 0" "t = snd (hw_read PCM_CS (drain_rounds k s))"
    by blast
  then show "drain_fifo s = Some t" by (simp add: drain_fifo_steps)
qed


lemma spisl_write_Some_iff:
  "spisl_write d s = Some t \<longleftrightarrow>
     (\<exists>n k. (\<forall>i<n. get_field CS_TXD (inputs s PCM_CS !! i) = 0) \<and>
            get_field CS_TXD (inputs s PCM_CS !! n) \<noteq> 0 \<and>
            (\<forall>i<k. get_field CS_RXD (inputs s PCM_CS !! (Suc n + i)) \<noteq> 0) \<and>
            get_field CS_RXD (inputs s PCM_CS !! (Suc n + k)) = 0 \<and>
            t = snd (hw_read PCM_CS (drain_rounds k
                  (hw_write PCM_FIFO (ucast d) (consume PCM_CS (Suc n) s)))))"
  (is "?lhs \<longleftrightarrow> ?rhs")
proof
  have at: "inputs (hw_write PCM_FIFO (ucast d) (consume PCM_CS (Suc n) s)) PCM_CS !! i
      = inputs s PCM_CS !! (Suc n + i)" for n i
    by (simp add: inputs_consume sdrop_snth del: sdrop.simps)
  {
    assume ?lhs
    then obtain s1 where s1: "spin_while PCM_CS (\<lambda>v. get_field CS_TXD v = 0) s = Some s1"
      and dr: "drain_fifo (hw_write PCM_FIFO (ucast d) s1) = Some t"
      by (auto simp: spisl_write_def bind_eq_Some_conv)
    from s1 obtain n where n: "\<forall>i<n. get_field CS_TXD (inputs s PCM_CS !! i) = 0"
      "get_field CS_TXD (inputs s PCM_CS !! n) \<noteq> 0" "s1 = consume PCM_CS (Suc n) s"
      by (rule spin_while_SomeD)
    from dr obtain k where k:
      "\<forall>i<k. get_field CS_RXD (inputs (hw_write PCM_FIFO (ucast d) s1) PCM_CS !! i) \<noteq> 0"
      "get_field CS_RXD (inputs (hw_write PCM_FIFO (ucast d) s1) PCM_CS !! k) = 0"
      "t = snd (hw_read PCM_CS (drain_rounds k (hw_write PCM_FIFO (ucast d) s1)))"
      unfolding drain_fifo_Some_iff by blast
    from n k show ?rhs unfolding n(3) at by blast
  }
  {
    assume ?rhs
    then obtain n k where n: "\<forall>i<n. get_field CS_TXD (inputs s PCM_CS !! i) = 0"
      "get_field CS_TXD (inputs s PCM_CS !! n) \<noteq> 0"
      and k: "\<forall>i<k. get_field CS_RXD (inputs s PCM_CS !! (Suc n + i)) \<noteq> 0"
      "get_field CS_RXD (inputs s PCM_CS !! (Suc n + k)) = 0"
      and t: "t = snd (hw_read PCM_CS (drain_rounds k
                  (hw_write PCM_FIFO (ucast d) (consume PCM_CS (Suc n) s))))"
      by blast
    have "spin_while PCM_CS (\<lambda>v. get_field CS_TXD v = 0) s = Some (consume PCM_CS (Suc n) s)"
      using n by (intro spin_while_steps) simp_all
    moreover have "drain_fifo (hw_write PCM_FIFO (ucast d) (consume PCM_CS (Suc n) s)) = Some t"
    proof -
      let ?s2 = "hw_write PCM_FIFO (ucast d) (consume PCM_CS (Suc n) s)"
      have k1: "\<forall>i<k. get_field CS_RXD (inputs ?s2 PCM_CS !! i) \<noteq> 0"
        unfolding at by (rule k(1))
      have k2: "get_field CS_RXD (inputs ?s2 PCM_CS !! k) = 0"
        unfolding at by (rule k(2))
      show ?thesis unfolding t by (rule drain_fifo_steps[OF k1 k2])
    qed
    ultimately show ?lhs by (simp add: spisl_write_def)
  }
qed

lemma get_field_values [simp]:
  "get_field CS_TXD 0x180000 = 1" "get_field CS_RXD 0x180000 = 1"
  "get_field CS_TXD 0x100000 = 0" "get_field CS_RXD 0x100000 = 1"
  "get_field CS_TXD 0x80000 = 1" "get_field CS_RXD 0x80000 = 0"
  "get_field CS_TXD 0 = 0" "get_field CS_RXD 0 = 0"
  by (simp_all add: get_field_def CS_TXD_def CS_RXD_def)

lemma spisl_read_Some_iff:
  "spisl_read s = Some r \<longleftrightarrow>
     (\<exists>n. (\<forall>i<n. get_field CS_RXD (inputs s PCM_CS !! i) = 0) \<and>
          get_field CS_RXD (inputs s PCM_CS !! n) \<noteq> 0 \<and>
          r = (ucast (shd (inputs s PCM_FIFO)),
               snd (hw_read PCM_FIFO (consume PCM_CS (Suc n) s))))"
  (is "?lhs \<longleftrightarrow> ?rhs")
proof
  assume ?lhs
  then obtain s1 where s1: "spin_while PCM_CS (\<lambda>v. get_field CS_RXD v = 0) s = Some s1"
    and r: "r = (ucast (fst (hw_read PCM_FIFO s1)), snd (hw_read PCM_FIFO s1))"
    by (auto simp: spisl_read_def bind_eq_Some_conv)
  from s1 obtain n where n: "\<forall>i<n. get_field CS_RXD (inputs s PCM_CS !! i) = 0"
    "get_field CS_RXD (inputs s PCM_CS !! n) \<noteq> 0" "s1 = consume PCM_CS (Suc n) s"
    by (rule spin_while_SomeD)
  from r have "r = (ucast (shd (inputs s PCM_FIFO)),
               snd (hw_read PCM_FIFO (consume PCM_CS (Suc n) s)))"
    by (simp add: n(3) inputs_consume)
  with n(1,2) show ?rhs by blast
next
  assume ?rhs
  then obtain n where n: "\<forall>i<n. get_field CS_RXD (inputs s PCM_CS !! i) = 0"
    "get_field CS_RXD (inputs s PCM_CS !! n) \<noteq> 0"
    and r: "r = (ucast (shd (inputs s PCM_FIFO)),
               snd (hw_read PCM_FIFO (consume PCM_CS (Suc n) s)))"
    by blast
  have "spin_while PCM_CS (\<lambda>v. get_field CS_RXD v = 0) s = Some (consume PCM_CS (Suc n) s)"
    using n by (intro spin_while_steps) simp_all
  then show ?lhs by (simp add: spisl_read_def r inputs_consume)
qed

lemma spisl_read_log:
  assumes "spisl_read s = Some (b, t)"
  shows "\<exists>L. log t = log s @ L \<and> map ucast (reads_of PCM_FIFO L) = [b] \<and>
           (\<forall>r. writes_of r L = [])"
proof -
  from assms obtain n where "b = ucast (shd (inputs s PCM_FIFO))"
    "t = snd (hw_read PCM_FIFO (consume PCM_CS (Suc n) s))"
    unfolding spisl_read_Some_iff by blast
  then show ?thesis
    by (intro exI[of _ "map (Rd PCM_CS) (stake (Suc n) (inputs s PCM_CS)) @
          [Rd PCM_FIFO (shd (inputs s PCM_FIFO))]"])
      (simp add: log_consume inputs_consume del: stake.simps)
qed

lemma st_delay_log:
  assumes "st_delay d s = Some t"
  shows "\<exists>L. log t = log s @ L \<and> reads_of PCM_FIFO L = [] \<and> (\<forall>r. writes_of r L = [])"
proof -
  from assms obtain n where "t = consume ST_CLO (Suc n) (snd (hw_read ST_CLO s))"
    unfolding st_delay_def by (rule spin_while_SomeD)
  then show ?thesis
    by (intro exI[of _ "Rd ST_CLO (shd (inputs s ST_CLO)) #
          map (Rd ST_CLO) (stake (Suc n) (stl (inputs s ST_CLO)))"])
      (simp add: log_consume del: stake.simps)
qed

lemma sync_body_effect:
  assumes "sync_body (c, i, u) = Some (c', i', u')"
  shows "c' = (if i = marker then c else 0) \<and>
         (\<exists>L. log u' = log u @ L \<and> map ucast (reads_of PCM_FIFO L) = [i'] \<and>
              writes_of PCM_FIFO L = [])"
proof (cases "i = marker")
  case True
  with assms have rd: "spisl_read u = Some (i', u')" and c: "c' = c"
    by (auto simp: sync_body_def bind_eq_Some_conv)
  from spisl_read_log[OF rd] c True show ?thesis by auto
next
  case False
  with assms obtain u1 where d: "st_delay ST_1us (field_write PCM_MODE MODE_CLK_DIS 1 u) = Some u1"
    and rd: "spisl_read (field_write PCM_MODE MODE_CLK_DIS 0 u1) = Some (i', u')" and c: "c' = 0"
    by (auto simp: sync_body_def bind_eq_Some_conv)
  from st_delay_log[OF d] obtain L1 where L1:
    "log u1 = log (field_write PCM_MODE MODE_CLK_DIS 1 u) @ L1" "reads_of PCM_FIFO L1 = []"
    "\<forall>r. writes_of r L1 = []" by blast
  from spisl_read_log[OF rd] obtain L2 where L2:
    "log u' = log (field_write PCM_MODE MODE_CLK_DIS 0 u1) @ L2"
    "map ucast (reads_of PCM_FIFO L2) = [i']" "\<forall>r. writes_of r L2 = []" by auto
  let ?L = "[Rd PCM_MODE (shd (inputs u PCM_MODE)),
             Wr PCM_MODE (set_field MODE_CLK_DIS 1 (shd (inputs u PCM_MODE)))] @ L1 @
            [Rd PCM_MODE (shd (inputs u1 PCM_MODE)),
             Wr PCM_MODE (set_field MODE_CLK_DIS 0 (shd (inputs u1 PCM_MODE)))] @ L2"
  have a: "log u' = log u @ ?L" by (simp add: L1(1) L2(1))
  have b: "map ucast (reads_of PCM_FIFO ?L) = [i']" by (simp add: L1(2) L2(2))
  have d: "writes_of PCM_FIFO ?L = []" using L1(3) L2(3) by simp
  have "\<exists>L. log u' = log u @ L \<and> map ucast (reads_of PCM_FIFO L) = [i'] \<and>
              writes_of PCM_FIFO L = []"
    by (rule exI[of _ ?L]) (simp only: a b d simp_thms)
  with c False show ?thesis by simp
qed

lemma sync_count_exit:
  assumes "sync_count s = Some (cnt, incoming, t)"
  shows "cnt = 11 \<and> (\<exists>pre. received s t = pre @ replicate 10 marker @ [incoming] \<and>
           (pre = [] \<or> last pre \<noteq> marker)) \<and> writes_of PCM_FIFO (new_log s t) = []"
proof -
  from assms obtain i0 s1 where rd: "spisl_read s = Some (i0, s1)"
    and wl: "while_loop sync_cond sync_body (0, i0, s1) = Some (cnt, incoming, t)"
    by (auto simp: sync_count_def bind_eq_Some_conv)
  define J where "J c i u \<longleftrightarrow> 0 \<le> c \<and> c \<le> 10 \<and>
      (\<exists>L pre. log u = log s @ L \<and>
         map ucast (reads_of PCM_FIFO L) = pre @ replicate (nat c) marker @ [i] \<and>
         (pre = [] \<or> last pre \<noteq> marker) \<and> writes_of PCM_FIFO L = [])"
    for c :: int and i :: u8 and u :: hw
  define I where "I st \<longleftrightarrow> J (fst st) (fst (snd st)) (snd (snd st))"
    for st :: "int \<times> u8 \<times> hw"
  have JI: "\<exists>L pre. log u = log s @ L \<and>
         map ucast (reads_of PCM_FIFO L) = pre @ replicate (nat c) marker @ [i] \<and>
         (pre = [] \<or> last pre \<noteq> marker) \<and> writes_of PCM_FIFO L = [] \<Longrightarrow>
         0 \<le> c \<Longrightarrow> c \<le> 10 \<Longrightarrow> J c i u" for c i u
    unfolding J_def by (intro conjI)
  have I0: "I (0, i0, s1)"
  proof -
    from spisl_read_log[OF rd] obtain L where "log s1 = log s @ L"
      "map ucast (reads_of PCM_FIFO L) = [i0]" "\<forall>r. writes_of r L = []" by auto
    then have "\<exists>L pre. log s1 = log s @ L \<and>
         map ucast (reads_of PCM_FIFO L) = pre @ replicate (nat 0) marker @ [i0] \<and>
         (pre = [] \<or> last pre \<noteq> marker) \<and> writes_of PCM_FIFO L = []"
      by (intro exI[of _ L] exI[of _ "[]"]) simp
    then have "J 0 i0 s1" by (rule JI) simp_all
    then show ?thesis by (simp add: I_def)
  qed
  have step: "I st'" if "I st" "fst (sync_cond st)" "sync_body (snd (sync_cond st)) = Some st'"
    for st st'
  proof -
    obtain c i u where st: "st = (c, i, u)" by (cases st)
    obtain c' i' u' where st': "st' = (c', i', u')" by (cases st')
    from that(1) have "J c i u" by (simp add: I_def st)
    note j = this[unfolded J_def]
    note inv12 = j[THEN conjunct1] j[THEN conjunct2, THEN conjunct1]
    note ex = j[THEN conjunct2, THEN conjunct2]
    from ex obtain L pre where inv: "log u = log s @ L"
      "map ucast (reads_of PCM_FIFO L) = pre @ replicate (nat c) marker @ [i]"
      "pre = [] \<or> last pre \<noteq> marker" "writes_of PCM_FIFO L = []"
      by (elim exE conjE)
    from that(2) st have lt: "c < 10" by (simp add: sync_cond_def)
    from that(3) st st' have "sync_body (c + 1, i, u) = Some (c', i', u')"
      by (simp add: sync_cond_def)
    from sync_body_effect[OF this] obtain L' where c': "c' = (if i = marker then c + 1 else 0)"
      and L': "log u' = log u @ L'" "map ucast (reads_of PCM_FIFO L') = [i']"
        "writes_of PCM_FIFO L' = []"
      by (elim exE conjE)
    have lg: "log u' = log s @ (L @ L')" by (simp add: inv(1) L'(1))
    have wr: "writes_of PCM_FIFO (L @ L') = []" by (simp add: inv(4) L'(3))
    have "J c' i' u'"
    proof (cases "i = marker")
      case True
      have "replicate (nat c) marker @ [marker] = replicate (nat (c + 1)) marker"
        using inv12(1) by (simp add: nat_add_distrib replicate_append_same)
      then have "map ucast (reads_of PCM_FIFO (L @ L')) = pre @ replicate (nat (c + 1)) marker @ [i']"
        by (simp add: inv(2) L'(2) True)
      then have "\<exists>L pre. log u' = log s @ L \<and>
         map ucast (reads_of PCM_FIFO L) = pre @ replicate (nat (c + 1)) marker @ [i'] \<and>
         (pre = [] \<or> last pre \<noteq> marker) \<and> writes_of PCM_FIFO L = []"
        using lg wr inv(3) by (intro exI[of _ "L @ L'"] exI[of _ pre] conjI)
      then have "J (c + 1) i' u'" using inv12(1) lt by (intro JI) simp_all
      with True c' show ?thesis by simp
    next
      case False
      let ?pre = "pre @ replicate (nat c) marker @ [i]"
      have r: "map ucast (reads_of PCM_FIFO (L @ L')) = ?pre @ replicate (nat 0) marker @ [i']"
        by (simp add: inv(2) L'(2))
      have l: "?pre = [] \<or> last ?pre \<noteq> marker" using False by simp
      have "\<exists>L pre. log u' = log s @ L \<and>
         map ucast (reads_of PCM_FIFO L) = pre @ replicate (nat 0) marker @ [i'] \<and>
         (pre = [] \<or> last pre \<noteq> marker) \<and> writes_of PCM_FIFO L = []"
        using lg r l wr by (intro exI[of _ "L @ L'"] exI[of _ ?pre] conjI)
      then have "J 0 i' u'" by (intro JI) simp_all
      with False c' show ?thesis by simp
    qed
    then show ?thesis by (simp add: I_def st')
  qed
  have "\<exists>st. I st \<and> \<not> fst (sync_cond st) \<and> (cnt, incoming, t) = snd (sync_cond st)"
  proof (rule while_loop_rule[where I = I and b = sync_body])
    show "while_loop sync_cond sync_body (0, i0, s1) = Some (cnt, incoming, t)" by (rule wl)
    show "I (0, i0, s1)" by (rule I0)
    show "I st'" if "I st" "fst (sync_cond st)" "sync_body (snd (sync_cond st)) = Some st'"
      for st st'
      using that by (rule step)
  qed
  then obtain st where st: "I st" "\<not> fst (sync_cond st)" "(cnt, incoming, t) = snd (sync_cond st)"
    by (elim exE conjE)
  obtain c i u where ciu: "st = (c, i, u)" by (cases st)
  from st(1) have "J c i u" by (simp add: I_def ciu)
  note j = this[unfolded J_def]
  note inv12 = j[THEN conjunct1] j[THEN conjunct2, THEN conjunct1]
  note ex = j[THEN conjunct2, THEN conjunct2]
  from ex obtain L pre where inv: "log u = log s @ L"
      "map ucast (reads_of PCM_FIFO L) = pre @ replicate (nat c) marker @ [i]"
      "pre = [] \<or> last pre \<noteq> marker" "writes_of PCM_FIFO L = []"
    by (elim exE conjE)
  from st(2) ciu inv12(2) have c10: "c = 10" by (simp add: sync_cond_def)
  from st(3) ciu have res: "cnt = c + 1" "incoming = i" "t = u" by (simp_all add: sync_cond_def)
  from inv(1) have nl: "new_log s u = L" by (rule new_log_append)
  have "\<exists>pre. map ucast (reads_of PCM_FIFO L) = pre @ replicate 10 marker @ [i] \<and>
           (pre = [] \<or> last pre \<noteq> marker)"
    using inv(2,3) unfolding c10 by (intro exI[of _ pre]) simp
  with inv(4) show ?thesis unfolding res c10 received_def nl by simp
qed

lemma reads_of_read_actions:
  "length vs = length segs \<Longrightarrow> reads_of PCM_FIFO (read_actions segs vs) = vs"
  by (induction segs vs rule: read_actions.induct) simp_all

lemma writes_of_read_actions [simp]: "writes_of r (read_actions segs vs) = []"
  by (induction segs vs rule: read_actions.induct) simp_all

lemma fun_upd_two:
  "(f(a := x, b := y))(a := x', b := y') = f(a := x', b := y')"
  by (simp add: fun_eq_iff)

lemma hw_eqI: "inputs s = inputs t \<Longrightarrow> log s = log t \<Longrightarrow> s = (t :: hw)"
  by simp

lemma spin_ready:
  assumes "ready_after f ws" and "inputs s r = ws @- rest"
  shows "spin_while r (\<lambda>v. get_field f v = 0) s =
           Some (s\<lparr>inputs := (inputs s)(r := rest), log := log s @ map (Rd r) ws\<rparr>)"
proof -
  from assms(1) have ne: "ws \<noteq> []" and l: "get_field f (last ws) \<noteq> 0"
    and b: "\<forall>v \<in> set (butlast ws). get_field f v = 0"
    by (simp_all add: ready_after_def)
  from ne obtain n where n: "length ws = Suc n" by (cases ws) simp_all
  have 1: "\<forall>i<n. get_field f (inputs s r !! i) = 0"
  proof (intro allI impI)
    fix i assume "i < n"
    then have "ws ! i \<in> set (butlast ws)"
      using n by (metis diff_Suc_1 length_butlast nth_butlast nth_mem)
    with b \<open>i < n\<close> n show "get_field f (inputs s r !! i) = 0" by (simp add: assms(2))
  qed
  have 2: "\<not> get_field f (inputs s r !! n) = 0"
    using l n ne by (simp add: assms(2) last_conv_nth)
  have "spin_while r (\<lambda>v. get_field f v = 0) s = Some (consume r (Suc n) s)"
    using 1 2 by (rule spin_while_steps)
  moreover have "consume r (Suc n) s = s\<lparr>inputs := (inputs s)(r := rest), log := log s @ map (Rd r) ws\<rparr>"
    unfolding consume_def n[symmetric]
    by (simp add: assms(2) sdrop_shift stake_shift del: stake.simps sdrop.simps, simp)
  ultimately show ?thesis by simp
qed

lemma spisl_read_run:
  assumes "ready_after CS_RXD ws" and "inputs s PCM_CS = ws @- cs"
    and "inputs s PCM_FIFO = v ## ff"
  shows "spisl_read s = Some (ucast v,
           s\<lparr>inputs := (inputs s)(PCM_CS := cs, PCM_FIFO := ff),
             log := log s @ map (Rd PCM_CS) ws @ [Rd PCM_FIFO v]\<rparr>)"
  by (simp add: spisl_read_def spin_ready[OF assms(1,2)] assms(3) hw_read_def)

lemma spisl_write_run:
  assumes "ready_after CS_TXD wt" and "get_field CS_RXD idle = 0"
    and "inputs s PCM_CS = wt @- (idle ## cs)"
  shows "spisl_write d s = Some (s\<lparr>inputs := (inputs s)(PCM_CS := cs),
           log := log s @ map (Rd PCM_CS) wt @ [Wr PCM_FIFO (ucast d), Rd PCM_CS idle]\<rparr>)"
  using assms(2)
  by (simp add: spisl_write_def spin_ready[OF assms(1,3)] drain_fifo_def while_loop_False
      poll_def hw_read_def hw_write_def)

lemma sync_loop_run:
  assumes "\<forall>ws\<in>set segs. ready_after CS_RXD ws" and "length vs = length segs"
    and "\<forall>v\<in>set (butlast vs). ucast v = marker" and "segs \<noteq> [] \<longrightarrow> incoming = marker"
    and "cnt + int (length segs) = 10"
    and "inputs u PCM_CS = concat segs @- cs" and "inputs u PCM_FIFO = vs @- ff"
  shows "while_loop sync_cond sync_body (cnt, incoming, u) =
           Some (11, last (incoming # map ucast vs),
             u\<lparr>inputs := (inputs u)(PCM_CS := cs, PCM_FIFO := ff),
               log := log u @ read_actions segs vs\<rparr>)"
  using assms
proof (induction segs vs arbitrary: cnt incoming u rule: read_actions.induct)
  case (1 ws segs v vs)
  let ?u1 = "u\<lparr>inputs := (inputs u)(PCM_CS := concat segs @- cs, PCM_FIFO := vs @- ff),
             log := log u @ map (Rd PCM_CS) ws @ [Rd PCM_FIFO v]\<rparr>"
  from "1.prems"(5) have lt: "cnt < 10" by simp
  from "1.prems"(4) have inc: "incoming = marker" by simp
  have rd: "spisl_read u = Some (ucast v, ?u1)"
    using "1.prems"(1,6,7) by (intro spisl_read_run) simp_all
  have body: "sync_body (cnt + 1, incoming, u) = Some (cnt + 1, ucast v, ?u1)"
    by (simp add: sync_body_def inc rd)
  have "while_loop sync_cond sync_body (cnt, incoming, u) =
      while_loop sync_cond sync_body (cnt + 1, ucast v, ?u1)"
    using lt body by (simp add: while_loop_True sync_cond_def)
  also have "\<dots> = Some (11, last (ucast v # map ucast vs),
             ?u1\<lparr>inputs := (inputs ?u1)(PCM_CS := cs, PCM_FIFO := ff),
               log := log ?u1 @ read_actions segs vs\<rparr>)"
  proof (rule "1.IH")
    show "\<forall>ws\<in>set segs. ready_after CS_RXD ws" using "1.prems"(1) by simp
    show "length vs = length segs" using "1.prems"(2) by simp
    show "\<forall>v\<in>set (butlast vs). ucast v = marker" using "1.prems"(3) by (auto split: if_splits)
    show "segs \<noteq> [] \<longrightarrow> ucast v = marker"
    proof
      assume "segs \<noteq> []"
      with "1.prems"(2) have "vs \<noteq> []" by auto
      with "1.prems"(3) show "ucast v = marker" by simp
    qed
    show "cnt + 1 + int (length segs) = 10" using "1.prems"(5) by simp
    show "inputs ?u1 PCM_CS = concat segs @- cs" by simp
    show "inputs ?u1 PCM_FIFO = vs @- ff" by simp
  qed
  also have "?u1\<lparr>inputs := (inputs ?u1)(PCM_CS := cs, PCM_FIFO := ff),
               log := log ?u1 @ read_actions segs vs\<rparr> =
             u\<lparr>inputs := (inputs u)(PCM_CS := cs, PCM_FIFO := ff),
               log := log u @ read_actions (ws # segs) (v # vs)\<rparr>"
    by (intro hw_eqI) (simp_all add: fun_eq_iff)
  also have "last (ucast v # map ucast vs) = last (incoming # map ucast (v # vs))" by simp
  finally show ?case .
qed (auto simp: while_loop_False sync_cond_def intro!: hw_eqI)

lemma concat_replicate_single: "concat (replicate n [x]) = replicate n x"
  by (induction n) simp_all

lemma ready_after_single [simp]: "ready_after f [v] \<longleftrightarrow> get_field f v \<noteq> 0"
  by (simp add: ready_after_def)

lemma st_delay_run:
  assumes "st_elapsed c0 c1 d" and "inputs s ST_CLO = c0 ## c1 ## rest"
  shows "st_delay d s = Some (s\<lparr>inputs := (inputs s)(ST_CLO := rest),
           log := log s @ [Rd ST_CLO c0, Rd ST_CLO c1]\<rparr>)"
proof -
  let ?s1 = "snd (hw_read ST_CLO s)"
  have "spin_while ST_CLO (\<lambda>now. \<not> st_elapsed c0 now d) ?s1 = Some (consume ST_CLO (Suc 0) ?s1)"
    using assms by (intro spin_while_steps) simp_all
  then show ?thesis
    by (simp add: st_delay_def assms(2) consume_def hw_read_def)
qed

lemma sync_count_run:
  assumes "\<forall>ws\<in>set segs. ready_after CS_RXD ws" and "length segs = 11" and "length vs = 11"
    and "\<forall>v\<in>set (butlast vs). ucast v = marker"
    and "inputs s PCM_CS = concat segs @- cs" and "inputs s PCM_FIFO = vs @- ff"
  shows "sync_count s = Some (11, ucast (last vs),
           s\<lparr>inputs := (inputs s)(PCM_CS := cs, PCM_FIFO := ff),
             log := log s @ read_actions segs vs\<rparr>)"
proof -
  from assms(2) obtain ws segs' where segs: "segs = ws # segs'" "length segs' = 10"
    by (cases segs) simp_all
  from assms(3) obtain v vs' where vs: "vs = v # vs'" "length vs' = 10"
    by (cases vs) simp_all
  let ?s1 = "s\<lparr>inputs := (inputs s)(PCM_CS := concat segs' @- cs, PCM_FIFO := vs' @- ff),
             log := log s @ map (Rd PCM_CS) ws @ [Rd PCM_FIFO v]\<rparr>"
  have ne: "vs' \<noteq> []" using vs(2) by auto
  have rd: "spisl_read s = Some (ucast v, ?s1)"
    using assms(1,5,6) by (intro spisl_read_run) (simp_all add: segs vs)
  have "while_loop sync_cond sync_body (0, ucast v, ?s1) =
      Some (11, last (ucast v # map ucast vs'),
        ?s1\<lparr>inputs := (inputs ?s1)(PCM_CS := cs, PCM_FIFO := ff),
          log := log ?s1 @ read_actions segs' vs'\<rparr>)"
  proof (rule sync_loop_run)
    show "\<forall>ws\<in>set segs'. ready_after CS_RXD ws" using assms(1) by (simp add: segs)
    show "length vs' = length segs'" by (simp add: segs vs)
    show "\<forall>v\<in>set (butlast vs'). ucast v = marker" using assms(4) ne by (simp add: vs)
    show "segs' \<noteq> [] \<longrightarrow> ucast v = marker" using assms(4) ne by (simp add: vs)
    show "0 + int (length segs') = 10" by (simp add: segs)
    show "inputs ?s1 PCM_CS = concat segs' @- cs" by simp
    show "inputs ?s1 PCM_FIFO = vs' @- ff" by simp
  qed
  also have "?s1\<lparr>inputs := (inputs ?s1)(PCM_CS := cs, PCM_FIFO := ff),
          log := log ?s1 @ read_actions segs' vs'\<rparr> =
        s\<lparr>inputs := (inputs s)(PCM_CS := cs, PCM_FIFO := ff),
             log := log s @ read_actions segs vs\<rparr>"
    by (intro hw_eqI) (simp_all add: fun_eq_iff segs vs)
  also have "last (ucast v # map ucast vs') = ucast (last vs)"
    using ne by (simp add: vs last_map)
  finally have w: "while_loop sync_cond sync_body (0, ucast v, ?s1) =
      Some (11, ucast (last vs),
        s\<lparr>inputs := (inputs s)(PCM_CS := cs, PCM_FIFO := ff),
          log := log s @ read_actions segs vs\<rparr>)" .
  show ?thesis unfolding sync_count_def by (simp only: rd w Option.bind.simps prod.case)
qed

lemma sync_wait_run:
  assumes "incoming \<noteq> m" and "ready_after CS_RXD wl" and "inputs s PCM_CS = wl @- cs"
    and "inputs s PCM_FIFO = v ## ff" and "ucast v = m"
  shows "sync_wait m (incoming, s) = Some (m,
           s\<lparr>inputs := (inputs s)(PCM_CS := cs, PCM_FIFO := ff),
             log := log s @ map (Rd PCM_CS) wl @ [Rd PCM_FIFO v]\<rparr>)"
  using assms(1,5)
  by (simp add: sync_wait_def while_loop_True while_loop_False spisl_read_run[OF assms(2,3,4)])

lemma drain_actions_simps [simp]:
  "drain_actions [] = []"
  "drain_actions (p # ps) = Rd PCM_CS (fst p) # Rd PCM_FIFO (snd p) # drain_actions ps"
  by (simp_all add: drain_actions_def)

lemma drain_fifo_run:
  assumes "\<forall>p \<in> set ps. get_field CS_RXD (fst p) \<noteq> 0" and "get_field CS_RXD v = 0"
    and "inputs s PCM_CS = map fst ps @- (v ## rest)" and "inputs s PCM_FIFO = map snd ps @- ff"
  shows "drain_fifo s = Some (s\<lparr>inputs := (inputs s)(PCM_CS := rest, PCM_FIFO := ff),
           log := log s @ drain_actions ps @ [Rd PCM_CS v]\<rparr>)"
  using assms
proof (induction ps arbitrary: s)
  case Nil
  then show ?case
    by (auto simp: drain_fifo_def while_loop_False poll_def hw_read_def intro!: hw_eqI)
next
  case (Cons p ps)
  let ?c = "poll PCM_CS (\<lambda>v. get_field CS_RXD v \<noteq> 0)"
  let ?s1 = "snd (hw_read PCM_FIFO (snd (hw_read PCM_CS s)))"
  have c: "fst (?c s)" using Cons.prems(1,3) by (simp add: poll_def hw_read_def)
  have s1: "inputs ?s1 PCM_CS = map fst ps @- (v ## rest)" "inputs ?s1 PCM_FIFO = map snd ps @- ff"
    "log ?s1 = log s @ [Rd PCM_CS (fst p), Rd PCM_FIFO (snd p)]"
    using Cons.prems(3,4) by simp_all
  have "drain_fifo s = drain_fifo ?s1"
    unfolding drain_fifo_def
    by (subst while_loop_True[where c = ?c and s = s, OF c]) (simp add: poll_def)
  also have "\<dots> = Some (?s1\<lparr>inputs := (inputs ?s1)(PCM_CS := rest, PCM_FIFO := ff),
           log := log ?s1 @ drain_actions ps @ [Rd PCM_CS v]\<rparr>)"
    using Cons.prems(1,2) s1(1,2) by (intro Cons.IH) simp_all
  also have "?s1\<lparr>inputs := (inputs ?s1)(PCM_CS := rest, PCM_FIFO := ff),
           log := log ?s1 @ drain_actions ps @ [Rd PCM_CS v]\<rparr> =
      s\<lparr>inputs := (inputs s)(PCM_CS := rest, PCM_FIFO := ff),
           log := log s @ drain_actions (p # ps) @ [Rd PCM_CS v]\<rparr>"
    using Cons.prems(3,4) by (intro hw_eqI) (simp_all add: fun_eq_iff)
  finally show ?case .
qed

lemma spisl_write_run_drain:
  assumes "ready_after CS_TXD wt" and "\<forall>p \<in> set ps. get_field CS_RXD (fst p) \<noteq> 0"
    and "get_field CS_RXD v = 0"
    and "inputs s PCM_CS = wt @- map fst ps @- (v ## rest)"
    and "inputs s PCM_FIFO = map snd ps @- ff"
  shows "spisl_write d s = Some (s\<lparr>inputs := (inputs s)(PCM_CS := rest, PCM_FIFO := ff),
           log := log s @ map (Rd PCM_CS) wt @ [Wr PCM_FIFO (ucast d)] @ drain_actions ps @
                  [Rd PCM_CS v]\<rparr>)"
proof -
  define s1 where "s1 = hw_write PCM_FIFO (ucast d)
      (s\<lparr>inputs := (inputs s)(PCM_CS := map fst ps @- (v ## rest)),
         log := log s @ map (Rd PCM_CS) wt\<rparr>)"
  have s1: "inputs s1 PCM_CS = map fst ps @- (v ## rest)" "inputs s1 PCM_FIFO = map snd ps @- ff"
    "log s1 = log s @ map (Rd PCM_CS) wt @ [Wr PCM_FIFO (ucast d)]"
    "inputs s1 = (inputs s)(PCM_CS := map fst ps @- (v ## rest))"
    by (simp_all add: s1_def assms(5))
  have "spisl_write d s = drain_fifo s1"
    by (simp add: spisl_write_def spin_ready[OF assms(1,4)] s1_def)
  also have "\<dots> = Some (s1\<lparr>inputs := (inputs s1)(PCM_CS := rest, PCM_FIFO := ff),
           log := log s1 @ drain_actions ps @ [Rd PCM_CS v]\<rparr>)"
    by (rule drain_fifo_run[OF assms(2,3) s1(1,2)])
  also have "s1\<lparr>inputs := (inputs s1)(PCM_CS := rest, PCM_FIFO := ff),
           log := log s1 @ drain_actions ps @ [Rd PCM_CS v]\<rparr> =
      s\<lparr>inputs := (inputs s)(PCM_CS := rest, PCM_FIFO := ff),
           log := log s @ map (Rd PCM_CS) wt @ [Wr PCM_FIFO (ucast d)] @ drain_actions ps @
                  [Rd PCM_CS v]\<rparr>"
    by (rule hw_eqI) (simp_all add: s1(3,4))
  finally show ?thesis .
qed

lemma in_set_stake: "x \<in> set (stake k st) \<Longrightarrow> \<exists>i<k. x = st !! i"
  by (auto simp: in_set_conv_nth)

lemma spisl_write_env:
  assumes "spisl_write d s = Some t"
  shows "\<exists>wt ps v rest ff. ready_after CS_TXD wt \<and>
           (\<forall>p \<in> set ps. get_field CS_RXD (fst p) \<noteq> 0) \<and> get_field CS_RXD v = 0 \<and>
           inputs s PCM_CS = wt @- map fst ps @- (v ## rest) \<and>
           inputs s PCM_FIFO = map snd ps @- ff"
proof -
  define cs where "cs = inputs s PCM_CS"
  from assms obtain n k where nk: "\<forall>i<n. get_field CS_TXD (cs !! i) = 0"
    "get_field CS_TXD (cs !! n) \<noteq> 0"
    "\<forall>i<k. get_field CS_RXD (cs !! (Suc n + i)) \<noteq> 0"
    "get_field CS_RXD (cs !! (Suc n + k)) = 0"
    unfolding spisl_write_Some_iff cs_def by blast
  define wt where "wt = stake (Suc n) cs"
  define ps where "ps = zip (stake k (sdrop (Suc n) cs)) (stake k (inputs s PCM_FIFO))"
  have fst: "map fst ps = stake k (sdrop (Suc n) cs)" and snd: "map snd ps = stake k (inputs s PCM_FIFO)"
    by (simp_all add: ps_def)
  have wt: "wt = stake n cs @ [cs !! n]" by (simp add: wt_def stake_Suc del: stake.simps)
  have "ready_after CS_TXD wt"
    unfolding ready_after_def wt using nk(1,2) by (auto dest: in_set_stake)
  moreover have "\<forall>p \<in> set ps. get_field CS_RXD (fst p) \<noteq> 0"
  proof
    fix p assume "p \<in> set ps"
    then have "fst p \<in> set (map fst ps)" by (simp del: stake.simps)
    then have "fst p \<in> set (stake k (sdrop (Suc n) cs))" by (simp only: fst)
    then obtain i where "i < k" "fst p = sdrop (Suc n) cs !! i" by (auto dest: in_set_stake)
    with nk(3) show "get_field CS_RXD (fst p) \<noteq> 0" by (simp add: sdrop_snth del: sdrop.simps)
  qed
  moreover have "cs = wt @- map fst ps @- (cs !! (Suc n + k) ## sdrop (Suc (Suc n + k)) cs)"
  proof -
    have "sdrop (Suc n + k) cs = cs !! (Suc n + k) ## sdrop (Suc (Suc n + k)) cs"
      by (metis sdrop_simps(1) sdrop_simps(2) stream.collapse)
    then have "sdrop k (sdrop (Suc n) cs) = cs !! (Suc n + k) ## sdrop (Suc (Suc n + k)) cs"
      by (simp only: sdrop_add)
    then have "sdrop (Suc n) cs = map fst ps @- (cs !! (Suc n + k) ## sdrop (Suc (Suc n + k)) cs)"
      unfolding fst using stake_sdrop[of k "sdrop (Suc n) cs"] by simp
    then show ?thesis
      unfolding wt_def using stake_sdrop[of "Suc n" cs] by simp
  qed
  moreover have "inputs s PCM_FIFO = map snd ps @- sdrop k (inputs s PCM_FIFO)"
    unfolding snd by (simp add: stake_sdrop)
  ultimately show ?thesis using nk(4) unfolding cs_def by blast
qed

text \<open>
  C3, as the code has it. \<open>spisl_write\<close> returns exactly when the status register shows TXD
  after finitely many polls (\<open>wt\<close>), then shows RXD for some number of polls (the first
  components of \<open>ps\<close>, possibly none), and then shows RXD clear (\<open>v\<close>). It has then polled for
  TXD, written the byte, read one word from the FIFO after every poll that showed RXD
  (the second components of \<open>ps\<close>), and returned at the first poll that did not: it has
  drained as many bytes as there were consecutive polls showing RXD, none, one or more.
\<close>

theorem spisl_write_drains_while_rxd:
  "spisl_write d s = Some t \<longleftrightarrow>
     (\<exists>wt ps v rest ff. ready_after CS_TXD wt \<and>
        (\<forall>p \<in> set ps. get_field CS_RXD (fst p) \<noteq> 0) \<and> get_field CS_RXD v = 0 \<and>
        inputs s PCM_CS = wt @- map fst ps @- (v ## rest) \<and>
        inputs s PCM_FIFO = map snd ps @- ff \<and>
        t = s\<lparr>inputs := (inputs s)(PCM_CS := rest, PCM_FIFO := ff),
              log := log s @ map (Rd PCM_CS) wt @ [Wr PCM_FIFO (ucast d)] @ drain_actions ps @
                     [Rd PCM_CS v]\<rparr>)"
  (is "?lhs \<longleftrightarrow> ?rhs")
proof
  assume l: ?lhs
  from spisl_write_env[OF l] obtain wt ps v rest ff where e: "ready_after CS_TXD wt"
    "\<forall>p \<in> set ps. get_field CS_RXD (fst p) \<noteq> 0" "get_field CS_RXD v = 0"
    "inputs s PCM_CS = wt @- map fst ps @- (v ## rest)"
    "inputs s PCM_FIFO = map snd ps @- ff"
    by blast
  from spisl_write_run_drain[OF e, of d] l
  have "t = s\<lparr>inputs := (inputs s)(PCM_CS := rest, PCM_FIFO := ff),
              log := log s @ map (Rd PCM_CS) wt @ [Wr PCM_FIFO (ucast d)] @ drain_actions ps @
                     [Rd PCM_CS v]\<rparr>"
    by simp
  with e show ?rhs by blast
next
  assume ?rhs
  then obtain wt ps v rest ff where e: "ready_after CS_TXD wt"
    "\<forall>p \<in> set ps. get_field CS_RXD (fst p) \<noteq> 0" "get_field CS_RXD v = 0"
    "inputs s PCM_CS = wt @- map fst ps @- (v ## rest)"
    "inputs s PCM_FIFO = map snd ps @- ff"
    and t: "t = s\<lparr>inputs := (inputs s)(PCM_CS := rest, PCM_FIFO := ff),
              log := log s @ map (Rd PCM_CS) wt @ [Wr PCM_FIFO (ucast d)] @ drain_actions ps @
                     [Rd PCM_CS v]\<rparr>"
    by blast
  show ?lhs unfolding t by (rule spisl_write_run_drain[OF e])
qed

text \<open>On \<open>write_env\<close> RXD is shown at one poll after the write: one byte is drained.\<close>

theorem spisl_write_drains_while_rxd_witness:
  "spisl_write 0x81 write_env =
     Some (write_env\<lparr>inputs := (inputs write_env)(PCM_CS := sconst 0x80000,
                                                   PCM_FIFO := 0xBB ## sconst 0),
             log := [Rd PCM_CS 0x180000, Wr PCM_FIFO 0x81, Rd PCM_CS 0x100000, Rd PCM_FIFO 0xAA,
                     Rd PCM_CS 0x80000]\<rparr>)"
proof -
  have sc: "sconst (0x80000 :: u32) = 0x80000 ## sconst 0x80000"
    by (rule stream.expand) simp
  have cs: "inputs write_env PCM_CS =
      [0x180000] @- map fst [(0x100000, 0xAA :: u32)] @- (0x80000 ## sconst 0x80000)"
    using sc by (simp add: write_env_def)
  have ff: "inputs write_env PCM_FIFO = map snd [(0x100000 :: u32, 0xAA)] @- (0xBB ## sconst 0)"
    by (simp add: write_env_def)
  have lg: "log write_env = []" by (simp add: write_env_def)
  have txd: "ready_after CS_TXD [0x180000]"
    by (simp add: get_field_def CS_TXD_def)
  have rxd: "\<forall>p \<in> set [(0x100000 :: u32, 0xAA :: u32)]. get_field CS_RXD (fst p) \<noteq> 0"
    by (simp add: get_field_def CS_RXD_def)
  have idle: "get_field CS_RXD (0x80000 :: u32) = 0"
    by (simp add: get_field_def CS_RXD_def)
  have "\<exists>wt ps v rest ff. ready_after CS_TXD wt \<and>
        (\<forall>p \<in> set ps. get_field CS_RXD (fst p) \<noteq> 0) \<and> get_field CS_RXD v = 0 \<and>
        inputs write_env PCM_CS = wt @- map fst ps @- (v ## rest) \<and>
        inputs write_env PCM_FIFO = map snd ps @- ff \<and>
        write_env\<lparr>inputs := (inputs write_env)(PCM_CS := sconst 0x80000,
                                                   PCM_FIFO := 0xBB ## sconst 0),
             log := [Rd PCM_CS 0x180000, Wr PCM_FIFO 0x81, Rd PCM_CS 0x100000, Rd PCM_FIFO 0xAA,
                     Rd PCM_CS 0x80000]\<rparr> =
        write_env\<lparr>inputs := (inputs write_env)(PCM_CS := rest, PCM_FIFO := ff),
              log := log write_env @ map (Rd PCM_CS) wt @ [Wr PCM_FIFO (ucast (0x81 :: u8))] @
                     drain_actions ps @ [Rd PCM_CS v]\<rparr>"
    apply (rule exI[of _ "[0x180000]"])
    apply (rule exI[of _ "[(0x100000, 0xAA)]"])
    apply (rule exI[of _ "0x80000"])
    apply (rule exI[of _ "sconst 0x80000"])
    apply (rule exI[of _ "0xBB ## sconst 0"])
    apply (intro conjI txd rxd idle cs ff)
    apply (simp add: lg)
    done
  then show ?thesis by (simp only: spisl_write_drains_while_rxd)
qed

theorem spisl_write_drains_two:
  "get_field CS_RXD (inputs write_env2 PCM_CS !! 0) \<noteq> 0 \<and>
   map_option (\<lambda>t. reads_of PCM_FIFO (new_log write_env2 t)) (spisl_write 0x81 write_env2)
     = Some [0xAA, 0xBB]"
proof -
  let ?t = "snd (hw_read PCM_CS (drain_rounds (Suc (Suc 0))
                  (hw_write PCM_FIFO (ucast (0x81 :: u8)) (consume PCM_CS (Suc 0) write_env2))))"
  have cs: "inputs write_env2 PCM_CS = [0x180000, 0x100000, 0x100000] @- sconst 0x80000"
    and ff: "inputs write_env2 PCM_FIFO = 0xAA ## 0xBB ## sconst 0"
    and lg: "log write_env2 = []"
    by (simp_all add: write_env2_def)
  have "spisl_write 0x81 write_env2 = Some ?t"
    unfolding spisl_write_Some_iff
    by (intro exI[of _ 0] exI[of _ "Suc (Suc 0)"] conjI refl) (simp_all add: cs less_Suc_eq)
  moreover have "reads_of PCM_FIFO (new_log write_env2 ?t) = [0xAA, 0xBB]"
    by (simp add: new_log_def lg ff cs log_consume inputs_consume)
  ultimately show ?thesis by (simp add: cs)
qed

text \<open>
  C4. One pass of the counting loop adds 1 to the counter (the condition \<open>cnt++ < 10\<close>)
  and then, if the byte looked at differs from the marker, sets the counter to 0,
  whatever it was. The loop is left only when the bytes read so far are ten markers in
  a row, preceded by nothing or by a byte that is not the marker, and followed by the
  one byte read last, which has not been looked at yet.
\<close>

theorem sync_counter_resets_and_needs_ten:
  "sync_cond (c, i, u) = (c < 10, (c + 1, i, u)) \<and>
   (sync_body (c, i, u) = Some (c', i', u') \<longrightarrow> c' = (if i = marker then c else 0)) \<and>
   (sync_count s = Some (cnt, incoming, t) \<longrightarrow>
      (\<exists>pre. received s t = pre @ replicate 10 marker @ [incoming] \<and>
             (pre = [] \<or> last pre \<noteq> marker)))"
  using sync_body_effect[of c i u c' i' u'] sync_count_exit[of s cnt incoming t]
  by (simp add: sync_cond_def)

theorem sync_counter_resets_and_needs_ten_witness:
  "(\<exists>i' u'. sync_body (snd (sync_cond (9, 0x42, sync_env))) = Some (0, i', u')) \<and>
   (\<exists>incoming t pre. sync_count sync_env = Some (11, incoming, t) \<and>
      received sync_env t = pre @ replicate 10 marker @ [incoming] \<and>
      (pre = [] \<or> last pre \<noteq> marker))"
proof -
  let ?s = sync_env
  have clo: "inputs ?s ST_CLO = 5 ## 7 ## sconst 9"
    and cs: "inputs ?s PCM_CS = concat (replicate 11 [0x100000]) @-
        (0x80000 ## 0 ## 0 ## 0x100000 ## sconst 0)"
    and cs1: "inputs ?s PCM_CS = [0x100000] @- (replicate 10 0x100000 @-
        (0x80000 ## 0 ## 0 ## 0x100000 ## sconst 0))"
    and ff: "inputs ?s PCM_FIFO = replicate 11 0x81 @- (0x7E ## sconst 0)"
    and ff1: "inputs ?s PCM_FIFO = 0x81 ## (replicate 10 0x81 @- (0x7E ## sconst 0))"
    by (simp_all add: sync_env_def concat_replicate_single eval_nat_numeral)
  let ?u0 = "field_write PCM_MODE MODE_CLK_DIS 1 ?s"
  let ?u1 = "?u0\<lparr>inputs := (inputs ?u0)(ST_CLO := sconst 9),
      log := log ?u0 @ [Rd ST_CLO 5, Rd ST_CLO 7]\<rparr>"
  have d: "st_delay ST_1us ?u0 = Some ?u1"
    by (rule st_delay_run) (simp_all add: clo st_elapsed_def ST_1us_def ST_1s_def)
  have "\<exists>r. spisl_read (field_write PCM_MODE MODE_CLK_DIS 0 ?u1) = Some r"
    by (rule exI, rule spisl_read_run[where ws = "[0x100000]"]) (simp_all add: cs1 ff1)
  then obtain i' u' where rd: "spisl_read (field_write PCM_MODE MODE_CLK_DIS 0 ?u1) = Some (i', u')"
    by auto
  have "\<exists>c'. sync_body (10, 0x42, ?s) = Some (c', i', u')"
    using d rd by (simp add: sync_body_def marker_def)
  then obtain c' where body: "sync_body (10, 0x42, ?s) = Some (c', i', u')" ..
  have mk: "\<forall>v\<in>set (butlast (replicate 11 (0x81 :: u32))). ucast v = marker"
    by (auto dest!: in_set_butlastD simp: marker_def)
  have "sync_count ?s = Some (11, ucast (last (replicate 11 (0x81 :: u32))),
      ?s\<lparr>inputs := (inputs ?s)(PCM_CS := 0x80000 ## 0 ## 0 ## 0x100000 ## sconst 0,
            PCM_FIFO := 0x7E ## sconst 0),
          log := log ?s @ read_actions (replicate 11 [0x100000]) (replicate 11 0x81)\<rparr>)"
    using mk cs ff by (intro sync_count_run) simp_all
  then obtain incoming t where run: "sync_count ?s = Some (11, incoming, t)" by blast
  from sync_counter_resets_and_needs_ten[of 10 "0x42" ?s c' i' u' ?s 11 incoming t] body run
  have "c' = 0" and "\<exists>pre. received ?s t = pre @ replicate 10 marker @ [incoming] \<and>
             (pre = [] \<or> last pre \<noteq> marker)"
    by (simp_all add: marker_def)
  with body run show ?thesis by (auto simp: sync_cond_def)
qed

text \<open>
  C5, as the code has it. Let the receive FIFO deliver the marker \<open>0x81\<close> eleven times and
  then \<open>0x7E\<close>, let every poll for a flag find it set after finitely many tries, and let
  the poll that follows the write of the acknowledgement find no received byte pending.
  Then \<open>spisl_synchronize\<close> returns. It has read the eleven markers, then written the one
  acknowledgement byte \<open>0x81\<close>, then read the \<open>0x7E\<close>.
\<close>

theorem spisl_synchronize_returns_if_fifo_idle_at_ack:
  assumes "length segs = 11" and "\<forall>ws\<in>set segs. ready_after CS_RXD ws"
    and "ready_after CS_TXD wt" and "get_field CS_RXD idle = 0" and "ready_after CS_RXD wl"
    and "inputs s PCM_CS = concat segs @- wt @- (idle ## (wl @- cs))"
    and "inputs s PCM_FIFO = replicate 11 0x81 @- (0x7E ## ff)"
  shows "\<exists>t. spisl_synchronize s = Some t \<and>
           new_log s t = read_actions segs (replicate 11 0x81) @ map (Rd PCM_CS) wt @
             [Wr PCM_FIFO 0x81, Rd PCM_CS idle] @ map (Rd PCM_CS) wl @ [Rd PCM_FIFO 0x7E] \<and>
           reads_of PCM_FIFO (new_log s t) = replicate 11 0x81 @ [0x7E] \<and>
           writes_of PCM_FIFO (new_log s t) = [0x81] \<and>
           inputs t PCM_FIFO = ff \<and> inputs t PCM_CS = cs"
proof -
  let ?vs = "replicate 11 (0x81 :: u32)"
  let ?s2 = "s\<lparr>inputs := (inputs s)(PCM_CS := wt @- (idle ## (wl @- cs)), PCM_FIFO := 0x7E ## ff),
             log := log s @ read_actions segs ?vs\<rparr>"
  let ?s3 = "?s2\<lparr>inputs := (inputs ?s2)(PCM_CS := wl @- cs),
           log := log ?s2 @ map (Rd PCM_CS) wt @ [Wr PCM_FIFO (ucast marker), Rd PCM_CS idle]\<rparr>"
  let ?s4 = "?s3\<lparr>inputs := (inputs ?s3)(PCM_CS := cs, PCM_FIFO := ff),
             log := log ?s3 @ map (Rd PCM_CS) wl @ [Rd PCM_FIFO 0x7E]\<rparr>"
  have mk: "\<forall>v\<in>set (butlast ?vs). ucast v = marker"
    by (auto dest!: in_set_butlastD simp: marker_def)
  have cnt: "sync_count s = Some (11, ucast (last ?vs), ?s2)"
    using assms(1,2,6,7) mk by (intro sync_count_run) simp_all
  have inc: "ucast (last ?vs) = marker" by (simp add: marker_def)
  have wr: "spisl_write marker ?s2 = Some ?s3"
    using assms(3,4) by (intro spisl_write_run) simp_all
  have fin: "sync_wait (marker XOR 0xff) (marker, ?s3) = Some (marker XOR 0xff, ?s4)"
    using assms(5) by (intro sync_wait_run) (simp_all add: marker_def)
  have run: "spisl_synchronize s = Some ?s4"
    unfolding spisl_synchronize_def
    by (simp only: cnt inc wr fin Option.bind.simps prod.case)
  have lg: "log ?s4 = log s @ (read_actions segs ?vs @ map (Rd PCM_CS) wt @
             [Wr PCM_FIFO 0x81, Rd PCM_CS idle] @ map (Rd PCM_CS) wl @ [Rd PCM_FIFO 0x7E])"
    by (simp add: marker_def)
  have nl: "new_log s ?s4 = read_actions segs ?vs @ map (Rd PCM_CS) wt @
             [Wr PCM_FIFO 0x81, Rd PCM_CS idle] @ map (Rd PCM_CS) wl @ [Rd PCM_FIFO 0x7E]"
    using lg by (rule new_log_append)
  have rds: "reads_of PCM_FIFO (new_log s ?s4) = ?vs @ [0x7E]"
    unfolding nl using assms(1) by (simp add: reads_of_read_actions)
  have wrs: "writes_of PCM_FIFO (new_log s ?s4) = [0x81]"
    unfolding nl by simp
  show ?thesis
    by (rule exI[of _ ?s4]) (simp only: run nl[symmetric] rds wrs, simp)
qed

theorem spisl_synchronize_returns_if_fifo_idle_at_ack_witness:
  "\<exists>t. spisl_synchronize sync_env = Some t \<and>
       reads_of PCM_FIFO (new_log sync_env t) = replicate 11 0x81 @ [0x7E] \<and>
       writes_of PCM_FIFO (new_log sync_env t) = [0x81] \<and>
       inputs t PCM_FIFO = sconst 0 \<and> inputs t PCM_CS = sconst 0"
proof -
  have "\<exists>t. spisl_synchronize sync_env = Some t \<and>
           new_log sync_env t = read_actions (replicate 11 [0x100000]) (replicate 11 0x81) @
             map (Rd PCM_CS) [0x80000] @
             [Wr PCM_FIFO 0x81, Rd PCM_CS 0] @ map (Rd PCM_CS) [0, 0x100000] @ [Rd PCM_FIFO 0x7E] \<and>
           reads_of PCM_FIFO (new_log sync_env t) = replicate 11 0x81 @ [0x7E] \<and>
           writes_of PCM_FIFO (new_log sync_env t) = [0x81] \<and>
           inputs t PCM_FIFO = sconst 0 \<and> inputs t PCM_CS = sconst 0"
    by (rule spisl_synchronize_returns_if_fifo_idle_at_ack)
      (simp_all add: sync_env_def concat_replicate_single ready_after_def)
  then show ?thesis by blast
qed


theorem spisl_synchronize_hangs_when_sentinel_drained:
  "inputs sync_env_preloaded PCM_FIFO = replicate 11 0x81 @- (0x7E ## sconst 0) \<and>
   spisl_synchronize sync_env_preloaded = None"
proof -
  let ?vs = "replicate 11 (0x81 :: u32)"
  let ?segs = "replicate 11 [0x180000 :: u32]"
  let ?s = sync_env_preloaded
  have ff: "inputs ?s PCM_FIFO = ?vs @- (0x7E ## sconst 0)"
    and cs: "inputs ?s PCM_CS = concat ?segs @- ([0x180000, 0x180000] @- sconst 0x80000)"
    by (simp_all add: sync_env_preloaded_def concat_replicate_single)
  let ?s2 = "?s\<lparr>inputs := (inputs ?s)(PCM_CS := [0x180000, 0x180000] @- sconst 0x80000,
               PCM_FIFO := 0x7E ## sconst 0),
             log := log ?s @ read_actions ?segs ?vs\<rparr>"
  have mk: "\<forall>v\<in>set (butlast ?vs). ucast v = marker"
    by (auto dest!: in_set_butlastD simp: marker_def)
  have cnt: "sync_count ?s = Some (11, ucast (last ?vs), ?s2)"
    using mk cs ff by (intro sync_count_run) simp_all
  have inc: "ucast (last ?vs) = marker" by (simp add: marker_def)
  let ?s3 = "snd (hw_read PCM_CS (drain_rounds (Suc 0)
                  (hw_write PCM_FIFO (ucast marker) (consume PCM_CS (Suc 0) ?s2))))"
  have wr: "spisl_write marker ?s2 = Some ?s3"
    unfolding spisl_write_Some_iff
    by (intro exI[of _ 0] exI[of _ "Suc 0"] conjI refl) simp_all
  have "inputs ?s3 PCM_CS = sconst 0x80000"
    by (simp add: inputs_consume)
  then have "\<forall>n. get_field CS_RXD (inputs ?s3 PCM_CS !! n) = 0" by simp
  then have rd: "spisl_read ?s3 = None" by (rule spisl_read_stuck)
  have fin: "sync_wait (marker XOR 0xff) (marker, ?s3) = None"
    using rd by (simp add: sync_wait_def while_loop_True marker_def)
  have "spisl_synchronize ?s = None"
    unfolding spisl_synchronize_def
    by (simp only: cnt inc wr fin Option.bind.simps prod.case)
  with ff show ?thesis by simp
qed

section \<open>Initialisation of the SPI slave\<close>

subsection \<open>Bounded and unbounded runs agree\<close>

lemma and_then_simps [simp]: "and_then (Inl u) f = Inl u" "and_then (Inr t) f = f t"
  by (simp_all add: and_then_def)

lemma and_then_Inr_iff: "and_then r f = Inr t \<longleftrightarrow> (\<exists>u. r = Inr u \<and> f u = Inr t)"
  by (cases r) simp_all

lemma while_upto_imp_while_loop:
  "while_upto n c b s = Inr t \<Longrightarrow> while_loop c (\<lambda>s. Some (b s)) s = Some t"
proof (induction n arbitrary: s)
  case 0
  then show ?case by simp
next
  case (Suc n)
  show ?case
  proof (cases "fst (c s)")
    case True
    with Suc.prems have "while_upto n c b (b (snd (c s))) = Inr t" by simp
    then have "while_loop c (\<lambda>s. Some (b s)) (b (snd (c s))) = Some t" by (rule Suc.IH)
    with True show ?thesis by (simp add: while_loop_True)
  next
    case False
    with Suc.prems show ?thesis by (simp add: while_loop_False)
  qed
qed

lemma while_loop_imp_while_upto_aux:
  assumes "while_loop c b' s = Some t"
  shows "b' = (\<lambda>s. Some (b s)) \<longrightarrow> (\<exists>n. while_upto n c b s = Inr t)"
  using assms
proof (induction rule: while_loop.raw_induct[rotated 1, consumes 1])
  case (1 w c b' s t)
  show ?case
  proof (intro impI)
    assume b': "b' = (\<lambda>s. Some (b s))"
    show "\<exists>n. while_upto n c b s = Inr t"
    proof (cases "fst (c s)")
      case True
      with 1(2) b' have "w c b' (b (snd (c s))) = Some t" by simp
      from 1(1)[OF this] b' obtain n where "while_upto n c b (b (snd (c s))) = Inr t" by blast
      with True have "while_upto (Suc n) c b s = Inr t" by simp
      then show ?thesis ..
    next
      case False
      with 1(2) have "while_upto (Suc 0) c b s = Inr t" by simp
      then show ?thesis ..
    qed
  qed
qed

lemma while_loop_imp_while_upto:
  "while_loop c (\<lambda>s. Some (b s)) s = Some t \<Longrightarrow> \<exists>n. while_upto n c b s = Inr t"
  using while_loop_imp_while_upto_aux[of c "\<lambda>s. Some (b s)" s t b] by simp

lemma while_upto_mono:
  "while_upto n c b s = Inr t \<Longrightarrow> n \<le> m \<Longrightarrow> while_upto m c b s = Inr t"
proof (induction n arbitrary: m s)
  case 0
  then show ?case by simp
next
  case (Suc n)
  from Suc.prems(2) obtain m' where m: "m = Suc m'" "n \<le> m'" by (cases m) simp_all
  show ?case
  proof (cases "fst (c s)")
    case True
    with Suc.prems(1) have "while_upto n c b (b (snd (c s))) = Inr t" by simp
    from Suc.IH[OF this m(2)] True show ?thesis by (simp add: m(1))
  next
    case False
    with Suc.prems(1) show ?thesis by (simp add: m(1))
  qed
qed

lemma spin_while_upto:
  "spin_while r p s = Some t \<longleftrightarrow> (\<exists>n. while_upto n (poll r p) id s = Inr t)"
proof -
  have "Some = (\<lambda>s :: hw. Some (id s))" by (simp add: fun_eq_iff)
  then have "spin_while r p s = while_loop (poll r p) (\<lambda>s. Some (id s)) s"
    by (simp add: spin_while_def)
  then show ?thesis
    using while_loop_imp_while_upto[of "poll r p" id s t]
      while_upto_imp_while_loop[of _ "poll r p" id s t] by auto
qed

lemma drain_fifo_upto:
  "drain_fifo s = Some t \<longleftrightarrow>
     (\<exists>n. while_upto n (poll PCM_CS (\<lambda>v. get_field CS_RXD v \<noteq> 0))
             (\<lambda>s. snd (hw_read PCM_FIFO s)) s = Inr t)"
  unfolding drain_fifo_def
  using while_loop_imp_while_upto[of "poll PCM_CS (\<lambda>v. get_field CS_RXD v \<noteq> 0)"
      "\<lambda>s. snd (hw_read PCM_FIFO s)" s t]
    while_upto_imp_while_loop[of _ "poll PCM_CS (\<lambda>v. get_field CS_RXD v \<noteq> 0)"
      "\<lambda>s. snd (hw_read PCM_FIFO s)" s t] by auto

lemma st_delay_upto_iff:
  "st_delay d s = Some t \<longleftrightarrow> (\<exists>n. st_delay_upto n d s = Inr t)"
  by (simp add: st_delay_def st_delay_upto_def spin_while_upto)

lemma spisl_init_upto_iff:
  "spisl_init s = Some t \<longleftrightarrow> (\<exists>n. spisl_init_upto n s = Inr t)"
proof
  assume "spisl_init s = Some t"
  then obtain u1 u2 u3 u4 where
    u1: "drain_fifo (init_detach s) = Some u1" and
    u2: "st_delay ST_1ms (field_write PCM_CS CS_EN 0 u1) = Some u2" and
    u3: "spin_while PCM_CS (\<lambda>v. get_field CS_SYNC v = 0) (init_master (init_channels u2)) = Some u3"
    and
    u4: "spin_while PCM_CS (\<lambda>v. get_field CS_SYNC v \<noteq> 0) (field_write PCM_CS CS_SYNC 0 u3) = Some u4"
    and t: "t = init_slave u4"
    unfolding spisl_init_def by (auto simp: bind_eq_Some_conv)
  from u1 obtain n1 where n1: "while_upto n1 (poll PCM_CS (\<lambda>v. get_field CS_RXD v \<noteq> 0))
             (\<lambda>s. snd (hw_read PCM_FIFO s)) (init_detach s) = Inr u1"
    unfolding drain_fifo_upto by blast
  from u2 obtain n2 where n2: "st_delay_upto n2 ST_1ms (field_write PCM_CS CS_EN 0 u1) = Inr u2"
    unfolding st_delay_upto_iff by blast
  from u3 obtain n3 where n3: "while_upto n3 (poll PCM_CS (\<lambda>v. get_field CS_SYNC v = 0)) id
      (init_master (init_channels u2)) = Inr u3"
    unfolding spin_while_upto by blast
  from u4 obtain n4 where n4: "while_upto n4 (poll PCM_CS (\<lambda>v. get_field CS_SYNC v \<noteq> 0)) id
      (field_write PCM_CS CS_SYNC 0 u3) = Inr u4"
    unfolding spin_while_upto by blast
  define n where "n = max (max n1 n2) (max n3 n4)"
  have le: "n1 \<le> n" "n2 \<le> n" "n3 \<le> n" "n4 \<le> n" by (simp_all add: n_def)
  note m1 = while_upto_mono[OF n1 le(1)]
  note m2 = while_upto_mono[OF n2[unfolded st_delay_upto_def] le(2)]
  note m3 = while_upto_mono[OF n3 le(3)]
  note m4 = while_upto_mono[OF n4 le(4)]
  have "spisl_init_upto n s = Inr t"
    unfolding spisl_init_upto_def st_delay_upto_def t
    by (simp only: m1 m2 m3 m4 and_then_simps)
  then show "\<exists>n. spisl_init_upto n s = Inr t" ..
next
  assume "\<exists>n. spisl_init_upto n s = Inr t"
  then obtain n where "spisl_init_upto n s = Inr t" ..
  then obtain u1 u2 u3 u4 where
    u1: "while_upto n (poll PCM_CS (\<lambda>v. get_field CS_RXD v \<noteq> 0))
             (\<lambda>s. snd (hw_read PCM_FIFO s)) (init_detach s) = Inr u1" and
    u2: "st_delay_upto n ST_1ms (field_write PCM_CS CS_EN 0 u1) = Inr u2" and
    u3: "while_upto n (poll PCM_CS (\<lambda>v. get_field CS_SYNC v = 0)) id
      (init_master (init_channels u2)) = Inr u3" and
    u4: "while_upto n (poll PCM_CS (\<lambda>v. get_field CS_SYNC v \<noteq> 0)) id
      (field_write PCM_CS CS_SYNC 0 u3) = Inr u4" and
    t: "t = init_slave u4"
    unfolding spisl_init_upto_def and_then_Inr_iff by auto
  have d1: "drain_fifo (init_detach s) = Some u1" unfolding drain_fifo_upto using u1 by blast
  have d2: "st_delay ST_1ms (field_write PCM_CS CS_EN 0 u1) = Some u2"
    unfolding st_delay_upto_iff using u2 by blast
  have d3: "spin_while PCM_CS (\<lambda>v. get_field CS_SYNC v = 0) (init_master (init_channels u2)) = Some u3"
    unfolding spin_while_upto using u3 by blast
  have d4: "spin_while PCM_CS (\<lambda>v. get_field CS_SYNC v \<noteq> 0) (field_write PCM_CS CS_SYNC 0 u3) = Some u4"
    unfolding spin_while_upto using u4 by blast
  show "spisl_init s = Some t"
    unfolding spisl_init_def t by (simp only: d1 d2 d3 d4 Option.bind.simps)
qed

lemma spisl_init_upto_None:
  "spisl_init s = None \<longleftrightarrow> (\<forall>k. \<exists>u. spisl_init_upto k s = Inl u)"
proof
  assume n: "spisl_init s = None"
  show "\<forall>k. \<exists>u. spisl_init_upto k s = Inl u"
  proof
    fix k
    show "\<exists>u. spisl_init_upto k s = Inl u"
    proof (cases "spisl_init_upto k s")
      case (Inl u)
      then show ?thesis by blast
    next
      case (Inr t)
      then have "spisl_init s = Some t" unfolding spisl_init_upto_iff by blast
      with n show ?thesis by simp
    qed
  qed
next
  assume a: "\<forall>k. \<exists>u. spisl_init_upto k s = Inl u"
  show "spisl_init s = None"
  proof (cases "spisl_init s")
    case None
    then show ?thesis .
  next
    case (Some t)
    then obtain k where "spisl_init_upto k s = Inr t" unfolding spisl_init_upto_iff by blast
    with a show ?thesis by (metis sum.distinct(1))
  qed
qed

subsection \<open>The accesses of the blocks and of the loops\<close>

lemma set_field_fsel:
  "(v AND NOT (push_bit ((g mod 10) * 3) 7)) OR push_bit ((g mod 10) * 3) (function_value f AND 7)
   = set_field (fsel_field g) (function_value f) v"
proof -
  have "(7 :: u32) = mask 3" by (simp add: mask_eq_exp_minus_1)
  then show ?thesis
    by (simp add: set_field_def fsel_field_def take_bit_eq_mask)
qed

lemma log_gpio_configure:
  "log (gpio_configure g f s) = log s @ pin_select g f (shd (inputs s (GPIO_FSEL (g div 10))))"
  unfolding pin_select_def rmw_def set_field_fsel[symmetric]
  by (simp add: gpio_configure_def Let_def)

lemma log_field_write_rmw: "log (field_write r f x s) = log s @ rmw r f x (shd (inputs s r))"
  by (simp add: rmw_def)

lemma init_detach_seq: "\<exists>D. log (init_detach s) = log s @ D \<and> detach_block D"
proof -
  define s1 where "s1 = gpio_configure 28 Input s"
  define s2 where "s2 = gpio_configure 29 Input s1"
  define s3 where "s3 = gpio_configure 30 Input s2"
  define s4 where "s4 = gpio_configure 31 Input s3"
  have "init_detach s = memory_barrier s4"
    by (simp add: init_detach_def s1_def s2_def s3_def s4_def)
  then have "log (init_detach s) = log s @
      (pin_select 28 Input (shd (inputs s (GPIO_FSEL (28 div 10)))) @
       pin_select 29 Input (shd (inputs s1 (GPIO_FSEL (29 div 10)))) @
       pin_select 30 Input (shd (inputs s2 (GPIO_FSEL (30 div 10)))) @
       pin_select 31 Input (shd (inputs s3 (GPIO_FSEL (31 div 10)))) @ [Barrier])"
    by (simp only: log_memory_barrier s4_def s3_def s2_def s1_def log_gpio_configure append_assoc)
  then show ?thesis unfolding detach_block_def by blast
qed

lemma init_channels_seq: "\<exists>C. log (init_channels s) = log s @ C \<and> channel_block C"
proof -
  define s1 where "s1 = hw_write PCM_GRAY 0 (hw_write PCM_INTSTC 15 (hw_write PCM_INTEN 0
      (hw_write PCM_TXC 0 (hw_write PCM_RXC 0 s))))"
  define s2 where "s2 = field_write PCM_RXC CH1WEX 0 s1"
  define s3 where "s3 = field_write PCM_RXC CH1POS 0 s2"
  define s4 where "s4 = field_write PCM_RXC CH1WID 0 s3"
  define s5 where "s5 = field_write PCM_RXC CH1EN 1 s4"
  define s6 where "s6 = field_write PCM_TXC CH1WEX 0 s5"
  define s7 where "s7 = field_write PCM_TXC CH1POS 0 s6"
  define s8 where "s8 = field_write PCM_TXC CH1WID 0 s7"
  have "init_channels s = field_write PCM_TXC CH1EN 1 s8"
    by (simp add: init_channels_def Let_def s1_def s2_def s3_def s4_def s5_def s6_def s7_def
        s8_def)
  moreover have "log s1 = log s @ [Wr PCM_RXC 0, Wr PCM_TXC 0, Wr PCM_INTEN 0, Wr PCM_INTSTC 15,
      Wr PCM_GRAY 0]"
    by (simp add: s1_def)
  ultimately have "log (init_channels s) = log s @
      ([Wr PCM_RXC 0, Wr PCM_TXC 0, Wr PCM_INTEN 0, Wr PCM_INTSTC 15, Wr PCM_GRAY 0] @
       rmw PCM_RXC CH1WEX 0 (shd (inputs s1 PCM_RXC)) @
       rmw PCM_RXC CH1POS 0 (shd (inputs s2 PCM_RXC)) @
       rmw PCM_RXC CH1WID 0 (shd (inputs s3 PCM_RXC)) @
       rmw PCM_RXC CH1EN 1 (shd (inputs s4 PCM_RXC)) @
       rmw PCM_TXC CH1WEX 0 (shd (inputs s5 PCM_TXC)) @
       rmw PCM_TXC CH1POS 0 (shd (inputs s6 PCM_TXC)) @
       rmw PCM_TXC CH1WID 0 (shd (inputs s7 PCM_TXC)) @
       rmw PCM_TXC CH1EN 1 (shd (inputs s8 PCM_TXC)))"
    by (simp only: log_field_write_rmw s8_def s7_def s6_def s5_def s4_def s3_def s2_def
        append_assoc)
  then show ?thesis unfolding channel_block_def by blast
qed

lemma init_master_seq: "\<exists>M. log (init_master s) = log s @ M \<and> master_block M"
proof -
  define s1 where "s1 = hw_write PCM_MODE mode_master (hw_write (CM_CTL CM_PCM) pcm_cm_ctl
      (hw_write (CM_DIV CM_PCM) pcm_cm_div s))"
  have "init_master s = hw_write PCM_CS init_cs (field_write PCM_MODE MODE_CLK_DIS 0 s1)"
    by (simp add: init_master_def Let_def s1_def)
  moreover have "log s1 = log s @ [Wr (CM_DIV CM_PCM) pcm_cm_div, Wr (CM_CTL CM_PCM) pcm_cm_ctl,
      Wr PCM_MODE mode_master]"
    by (simp add: s1_def)
  ultimately have "log (init_master s) = log s @
      ([Wr (CM_DIV CM_PCM) pcm_cm_div, Wr (CM_CTL CM_PCM) pcm_cm_ctl, Wr PCM_MODE mode_master] @
       rmw PCM_MODE MODE_CLK_DIS 0 (shd (inputs s1 PCM_MODE)) @ [Wr PCM_CS init_cs])"
    by (simp only: log_hw_write log_field_write_rmw append_assoc)
  then show ?thesis unfolding master_block_def by blast
qed

lemma init_slave_seq: "\<exists>S. log (init_slave s) = log s @ S \<and> slave_block S"
proof -
  define s1 where "s1 = memory_barrier (hw_write PCM_MODE mode_slave
      (field_write PCM_MODE MODE_CLK_DIS 1 s))"
  define s2 where "s2 = gpio_configure 28 Alt2 s1"
  define s3 where "s3 = gpio_configure 29 Alt2 s2"
  define s4 where "s4 = gpio_configure 30 Alt2 s3"
  define s5 where "s5 = memory_barrier (gpio_configure 31 Alt2 s4)"
  have "init_slave s = memory_barrier (field_write PCM_MODE MODE_CLK_DIS 0 s5)"
    by (simp add: init_slave_def Let_def s1_def s2_def s3_def s4_def s5_def)
  moreover have "log s1 = log s @ rmw PCM_MODE MODE_CLK_DIS 1 (shd (inputs s PCM_MODE)) @
      [Wr PCM_MODE mode_slave, Barrier]"
    by (simp only: s1_def log_memory_barrier log_hw_write log_field_write_rmw append_assoc
        append.simps)
  ultimately have "log (init_slave s) = log s @
      (rmw PCM_MODE MODE_CLK_DIS 1 (shd (inputs s PCM_MODE)) @ [Wr PCM_MODE mode_slave, Barrier] @
       pin_select 28 Alt2 (shd (inputs s1 (GPIO_FSEL (28 div 10)))) @
       pin_select 29 Alt2 (shd (inputs s2 (GPIO_FSEL (29 div 10)))) @
       pin_select 30 Alt2 (shd (inputs s3 (GPIO_FSEL (30 div 10)))) @
       pin_select 31 Alt2 (shd (inputs s4 (GPIO_FSEL (31 div 10)))) @ [Barrier] @
       rmw PCM_MODE MODE_CLK_DIS 0 (shd (inputs s5 PCM_MODE)) @ [Barrier])"
    by (simp only: log_memory_barrier log_field_write_rmw log_gpio_configure s5_def s4_def s3_def
        s2_def append_assoc)
  then show ?thesis unfolding slave_block_def by blast
qed

lemma spin_upto_Inr:
  "while_upto n (poll r p) id s = Inr t \<Longrightarrow>
   \<exists>vs. log t = log s @ map (Rd r) vs \<and> vs \<noteq> [] \<and> \<not> p (last vs) \<and> (\<forall>v \<in> set (butlast vs). p v)"
proof (induction n arbitrary: s)
  case 0
  then show ?case by simp
next
  case (Suc n)
  let ?v = "shd (inputs s r)"
  let ?s1 = "snd (hw_read r s)"
  have c: "poll r p s = (p ?v, ?s1)" by (simp add: poll_def hw_read_def)
  show ?case
  proof (cases "p ?v")
    case True
    with Suc.prems have "while_upto n (poll r p) id ?s1 = Inr t" by (simp add: c id_def)
    from Suc.IH[OF this] obtain vs where vs: "log t = log ?s1 @ map (Rd r) vs" "vs \<noteq> []"
      "\<not> p (last vs)" "\<forall>v \<in> set (butlast vs). p v" by blast
    have "log t = log s @ map (Rd r) (?v # vs)" using vs(1) by simp
    moreover have "?v # vs \<noteq> []" by simp
    moreover have "\<not> p (last (?v # vs))" using vs(2,3) by simp
    moreover have "\<forall>v \<in> set (butlast (?v # vs)). p v" using vs(2,4) True by simp
    ultimately show ?thesis by blast
  next
    case False
    with Suc.prems have t: "t = ?s1" by (simp add: c)
    have "log t = log s @ map (Rd r) [?v]" by (simp add: t)
    moreover have "\<not> p (last [?v])" using False by simp
    ultimately show ?thesis by (intro exI[of _ "[?v]"]) simp
  qed
qed

lemma spin_upto_Inl:
  "while_upto n (poll r p) id s = Inl u \<Longrightarrow>
   \<exists>vs. log u = log s @ map (Rd r) vs \<and> (\<forall>v \<in> set vs. p v)"
proof (induction n arbitrary: s)
  case 0
  then have "log u = log s @ map (Rd r) []" by simp
  then show ?case by (intro exI[of _ "[]"]) simp
next
  case (Suc n)
  let ?v = "shd (inputs s r)"
  let ?s1 = "snd (hw_read r s)"
  have c: "poll r p s = (p ?v, ?s1)" by (simp add: poll_def hw_read_def)
  show ?case
  proof (cases "p ?v")
    case True
    with Suc.prems have "while_upto n (poll r p) id ?s1 = Inl u" by (simp add: c id_def)
    from Suc.IH[OF this] obtain vs where vs: "log u = log ?s1 @ map (Rd r) vs"
      "\<forall>v \<in> set vs. p v" by blast
    have "log u = log s @ map (Rd r) (?v # vs)" using vs(1) by simp
    moreover have "\<forall>v \<in> set (?v # vs). p v" using vs(2) True by simp
    ultimately show ?thesis by blast
  next
    case False
    with Suc.prems show ?thesis by (simp add: c)
  qed
qed

lemma drain_upto_Inr:
  "while_upto n (poll PCM_CS (\<lambda>v. get_field CS_RXD v \<noteq> 0)) (\<lambda>s. snd (hw_read PCM_FIFO s)) s = Inr t
   \<Longrightarrow> \<exists>R. log t = log s @ R \<and> drain_block R"
proof (induction n arbitrary: s)
  case 0
  then show ?case by simp
next
  case (Suc n)
  let ?v = "shd (inputs s PCM_CS)"
  let ?s1 = "snd (hw_read PCM_CS s)"
  let ?x = "shd (inputs ?s1 PCM_FIFO)"
  let ?s2 = "snd (hw_read PCM_FIFO ?s1)"
  have c: "poll PCM_CS (\<lambda>v. get_field CS_RXD v \<noteq> 0) s = (get_field CS_RXD ?v \<noteq> 0, ?s1)"
    by (simp add: poll_def hw_read_def)
  show ?case
  proof (cases "get_field CS_RXD ?v \<noteq> 0")
    case True
    with Suc.prems have "while_upto n (poll PCM_CS (\<lambda>v. get_field CS_RXD v \<noteq> 0))
        (\<lambda>s. snd (hw_read PCM_FIFO s)) ?s2 = Inr t"
      by (simp add: c)
    from Suc.IH[OF this] obtain R where R: "log t = log ?s2 @ R" "drain_block R" by blast
    from R(2) obtain ps v where ps: "R = drain_actions ps @ [Rd PCM_CS v]"
      "\<forall>p \<in> set ps. get_field CS_RXD (fst p) \<noteq> 0" "get_field CS_RXD v = 0"
      unfolding drain_block_def by blast
    have "log t = log s @ (drain_actions ((?v, ?x) # ps) @ [Rd PCM_CS v])"
      using R(1) ps(1) by simp
    moreover have "drain_block (drain_actions ((?v, ?x) # ps) @ [Rd PCM_CS v])"
      unfolding drain_block_def using ps(2,3) True
      by (intro exI[of _ "(?v, ?x) # ps"] exI[of _ v]) simp
    ultimately show ?thesis by blast
  next
    case False
    with Suc.prems have t: "t = ?s1" by (simp add: c)
    have "log t = log s @ (drain_actions [] @ [Rd PCM_CS ?v])" by (simp add: t)
    moreover have "drain_block (drain_actions [] @ [Rd PCM_CS ?v])"
      unfolding drain_block_def using False by (intro exI[of _ "[]"] exI[of _ ?v]) simp
    ultimately show ?thesis by blast
  qed
qed

lemma drain_upto_Inl:
  "while_upto n (poll PCM_CS (\<lambda>v. get_field CS_RXD v \<noteq> 0)) (\<lambda>s. snd (hw_read PCM_FIFO s)) s = Inl u
   \<Longrightarrow> \<exists>ps. log u = log s @ drain_actions ps \<and> (\<forall>p \<in> set ps. get_field CS_RXD (fst p) \<noteq> 0)"
proof (induction n arbitrary: s)
  case 0
  then have "log u = log s @ drain_actions []" by simp
  then show ?case by (intro exI[of _ "[]"]) simp
next
  case (Suc n)
  let ?v = "shd (inputs s PCM_CS)"
  let ?s1 = "snd (hw_read PCM_CS s)"
  let ?x = "shd (inputs ?s1 PCM_FIFO)"
  let ?s2 = "snd (hw_read PCM_FIFO ?s1)"
  have c: "poll PCM_CS (\<lambda>v. get_field CS_RXD v \<noteq> 0) s = (get_field CS_RXD ?v \<noteq> 0, ?s1)"
    by (simp add: poll_def hw_read_def)
  show ?case
  proof (cases "get_field CS_RXD ?v \<noteq> 0")
    case True
    with Suc.prems have "while_upto n (poll PCM_CS (\<lambda>v. get_field CS_RXD v \<noteq> 0))
        (\<lambda>s. snd (hw_read PCM_FIFO s)) ?s2 = Inl u"
      by (simp add: c)
    from Suc.IH[OF this] obtain ps where ps: "log u = log ?s2 @ drain_actions ps"
      "\<forall>p \<in> set ps. get_field CS_RXD (fst p) \<noteq> 0" by blast
    have "log u = log s @ drain_actions ((?v, ?x) # ps)" using ps(1) by simp
    moreover have "\<forall>p \<in> set ((?v, ?x) # ps). get_field CS_RXD (fst p) \<noteq> 0"
      using ps(2) True by simp
    ultimately show ?thesis by blast
  next
    case False
    with Suc.prems show ?thesis by (simp add: c)
  qed
qed

lemma delay_upto_Inr:
  assumes "st_delay_upto n d s = Inr t"
  shows "\<exists>T. log t = log s @ T \<and> delay_block d T"
proof -
  let ?t0 = "shd (inputs s ST_CLO)"
  let ?s1 = "snd (hw_read ST_CLO s)"
  from assms have "while_upto n (poll ST_CLO (\<lambda>now. \<not> st_elapsed ?t0 now d)) id ?s1 = Inr t"
    by (simp add: st_delay_upto_def hw_read_def)
  from spin_upto_Inr[OF this] obtain vs where vs: "log t = log ?s1 @ map (Rd ST_CLO) vs"
    "vs \<noteq> []" "st_elapsed ?t0 (last vs) d" "\<forall>v \<in> set (butlast vs). \<not> st_elapsed ?t0 v d"
    by auto
  have "log t = log s @ map (Rd ST_CLO) (?t0 # vs)" using vs(1) by simp
  moreover have "delay_block d (map (Rd ST_CLO) (?t0 # vs))"
    unfolding delay_block_def using vs(2,3,4) by blast
  ultimately show ?thesis by blast
qed

lemma delay_upto_Inl:
  assumes "st_delay_upto n d s = Inl u"
  shows "\<exists>t0 vs. log u = log s @ map (Rd ST_CLO) (t0 # vs) \<and> (\<forall>v \<in> set vs. \<not> st_elapsed t0 v d)"
proof -
  let ?t0 = "shd (inputs s ST_CLO)"
  let ?s1 = "snd (hw_read ST_CLO s)"
  from assms have "while_upto n (poll ST_CLO (\<lambda>now. \<not> st_elapsed ?t0 now d)) id ?s1 = Inl u"
    by (simp add: st_delay_upto_def hw_read_def)
  from spin_upto_Inl[OF this] obtain vs where vs: "log u = log ?s1 @ map (Rd ST_CLO) vs"
    "\<forall>v \<in> set vs. \<not> st_elapsed ?t0 v d"
    by auto
  have "log u = log s @ map (Rd ST_CLO) (?t0 # vs)" using vs(1) by simp
  with vs(2) show ?thesis by blast
qed

lemma wait_upto_Inr:
  "while_upto n (poll PCM_CS p) id s = Inr t \<Longrightarrow> \<exists>W. log t = log s @ W \<and> wait_block p W"
  unfolding wait_block_def using spin_upto_Inr[of n PCM_CS p s t] by blast

lemma drain_block_complete:
  "\<forall>p \<in> set ps. get_field CS_RXD (fst p) \<noteq> 0 \<Longrightarrow> drain_block (drain_actions ps @ [Rd PCM_CS 0])"
  unfolding drain_block_def
  by (intro exI[of _ ps] exI[of _ 0]) (simp add: get_field_def)

lemma delay_block_complete:
  "\<forall>v \<in> set vs. \<not> st_elapsed t0 v d \<Longrightarrow> delay_block d (map (Rd ST_CLO) (t0 # vs @ [t0 + d]))"
  unfolding delay_block_def
  by (intro exI[of _ t0] exI[of _ "vs @ [t0 + d]"]) (simp add: st_elapsed_def)

lemma wait_block_complete:
  "\<forall>v \<in> set vs. p v \<Longrightarrow> \<not> p x \<Longrightarrow> wait_block p (map (Rd PCM_CS) (vs @ [x]))"
  unfolding wait_block_def by (intro exI[of _ "vs @ [x]"]) simp

lemma delay_block_ex: "\<exists>T. delay_block d T"
  using delay_block_complete[of "[]" 0 d] by auto

lemma channel_block_ex: "\<exists>C. channel_block C"
  unfolding channel_block_def by blast

lemma master_block_ex: "\<exists>M. master_block M"
  unfolding master_block_def by blast

lemma slave_block_ex: "\<exists>S. slave_block S"
  unfolding slave_block_def by blast

lemma wait_set_ex: "\<exists>W. wait_block (\<lambda>v. get_field CS_SYNC v = 0) W"
  using wait_block_complete[of "[]" "\<lambda>v. get_field CS_SYNC v = 0" "0x1000000"]
  by (auto simp: get_field_def CS_SYNC_def)

lemma wait_clear_ex: "\<exists>W. wait_block (\<lambda>v. get_field CS_SYNC v \<noteq> 0) W"
  using wait_block_complete[of "[]" "\<lambda>v. get_field CS_SYNC v \<noteq> 0" 0]
  by (auto simp: get_field_def)

lemma init_sequenceI:
  assumes "detach_block D" and "drain_block R" and "delay_block ST_1ms T" and "channel_block C"
    and "master_block M" and "wait_block (\<lambda>v. get_field CS_SYNC v = 0) W1"
    and "wait_block (\<lambda>v. get_field CS_SYNC v \<noteq> 0) W2" and "slave_block S"
    and "L = D @ R @ rmw PCM_CS CS_EN 0 e @ T @ C @ M @ W1 @ rmw PCM_CS CS_SYNC 0 y @ W2 @ S"
  shows "init_sequence L"
  unfolding init_sequence_def using assms by blast

lemma spisl_init_upto_order:
  "case spisl_init_upto n s of
     Inr t \<Rightarrow> init_sequence (new_log s t)
   | Inl u \<Rightarrow> (\<exists>rest. init_sequence (new_log s u @ rest))"
proof -
  from init_detach_seq[of s] obtain D where D: "log (init_detach s) = log s @ D" "detach_block D"
    by blast
  from delay_block_ex obtain T0 where T0: "delay_block ST_1ms T0" by blast
  from channel_block_ex obtain C0 where C0: "channel_block C0" by blast
  from master_block_ex obtain M0 where M0: "master_block M0" by blast
  from wait_set_ex obtain Wa where Wa: "wait_block (\<lambda>v. get_field CS_SYNC v = 0) Wa" by blast
  from wait_clear_ex obtain Wb where Wb: "wait_block (\<lambda>v. get_field CS_SYNC v \<noteq> 0) Wb" by blast
  from slave_block_ex obtain S0 where S0: "slave_block S0" by blast
  let ?drain = "while_upto n (poll PCM_CS (\<lambda>v. get_field CS_RXD v \<noteq> 0))
      (\<lambda>s. snd (hw_read PCM_FIFO s)) (init_detach s)"
  show ?thesis
  proof (cases ?drain)
    case (Inl u)
    then have res: "spisl_init_upto n s = Inl u" by (simp add: spisl_init_upto_def)
    from drain_upto_Inl[OF Inl] obtain ps where ps: "log u = log (init_detach s) @ drain_actions ps"
      "\<forall>p \<in> set ps. get_field CS_RXD (fst p) \<noteq> 0" by blast
    have "log u = log s @ (D @ drain_actions ps)" by (simp add: ps(1) D(1))
    then have nl: "new_log s u = D @ drain_actions ps" by (rule new_log_append)
    let ?rest = "[Rd PCM_CS 0] @ rmw PCM_CS CS_EN 0 0 @ T0 @ C0 @ M0 @ Wa @
        rmw PCM_CS CS_SYNC 0 0 @ Wb @ S0"
    have "init_sequence (new_log s u @ ?rest)"
      by (rule init_sequenceI[where e = 0 and y = 0,
            OF D(2) drain_block_complete[OF ps(2)] T0 C0 M0 Wa Wb S0]) (simp add: nl)
    then have "\<exists>rest. init_sequence (new_log s u @ rest)" ..
    then show ?thesis by (simp add: res)
  next
    case u1: (Inr u1)
    from drain_upto_Inr[OF u1] obtain R where R: "log u1 = log (init_detach s) @ R" "drain_block R"
      by blast
    define e where "e = shd (inputs u1 PCM_CS)"
    define x1 where "x1 = field_write PCM_CS CS_EN 0 u1"
    have x1: "log x1 = log s @ (D @ R @ rmw PCM_CS CS_EN 0 e)"
      by (simp add: x1_def log_field_write_rmw R(1) D(1) e_def del: log_field_write)
    show ?thesis
    proof (cases "st_delay_upto n ST_1ms x1")
      case (Inl u)
      then have res: "spisl_init_upto n s = Inl u"
        by (simp add: spisl_init_upto_def u1 x1_def)
      from delay_upto_Inl[OF Inl] obtain t0 vs where vs:
        "log u = log x1 @ map (Rd ST_CLO) (t0 # vs)" "\<forall>v \<in> set vs. \<not> st_elapsed t0 v ST_1ms"
        by blast
      have "log u = log s @ (D @ R @ rmw PCM_CS CS_EN 0 e @ map (Rd ST_CLO) (t0 # vs))"
        by (simp add: vs(1) x1)
      then have nl: "new_log s u = D @ R @ rmw PCM_CS CS_EN 0 e @ map (Rd ST_CLO) (t0 # vs)"
        by (rule new_log_append)
      let ?rest = "[Rd ST_CLO (t0 + ST_1ms)] @ C0 @ M0 @ Wa @ rmw PCM_CS CS_SYNC 0 0 @ Wb @ S0"
      have "init_sequence (new_log s u @ ?rest)"
        by (rule init_sequenceI[where e = e and y = 0,
              OF D(2) R(2) delay_block_complete[OF vs(2)] C0 M0 Wa Wb S0]) (simp add: nl)
      then have "\<exists>rest. init_sequence (new_log s u @ rest)" ..
      then show ?thesis by (simp add: res)
    next
      case u2: (Inr u2)
      from delay_upto_Inr[OF u2] obtain T where T: "log u2 = log x1 @ T" "delay_block ST_1ms T"
        by blast
      from init_channels_seq[of u2] obtain C where C: "log (init_channels u2) = log u2 @ C"
        "channel_block C" by blast
      from init_master_seq[of "init_channels u2"] obtain M where
        M: "log (init_master (init_channels u2)) = log (init_channels u2) @ M" "master_block M"
        by blast
      define x3 where "x3 = init_master (init_channels u2)"
      have x3: "log x3 = log s @ (D @ R @ rmw PCM_CS CS_EN 0 e @ T @ C @ M)"
        by (simp add: x3_def M(1) C(1) T(1) x1)
      show ?thesis
      proof (cases "while_upto n (poll PCM_CS (\<lambda>v. get_field CS_SYNC v = 0)) id x3")
        case (Inl u)
        then have res: "spisl_init_upto n s = Inl u"
          by (simp add: spisl_init_upto_def u1 u2[unfolded x1_def] x3_def)
        from spin_upto_Inl[OF Inl] obtain vs where vs: "log u = log x3 @ map (Rd PCM_CS) vs"
          "\<forall>v \<in> set vs. get_field CS_SYNC v = 0" by blast
        have "log u = log s @ (D @ R @ rmw PCM_CS CS_EN 0 e @ T @ C @ M @ map (Rd PCM_CS) vs)"
          by (simp add: vs(1) x3)
        then have nl: "new_log s u = D @ R @ rmw PCM_CS CS_EN 0 e @ T @ C @ M @ map (Rd PCM_CS) vs"
          by (rule new_log_append)
        have set: "get_field CS_SYNC (0x1000000 :: u32) \<noteq> 0"
          by (simp add: get_field_def CS_SYNC_def)
        have w: "wait_block (\<lambda>v. get_field CS_SYNC v = 0) (map (Rd PCM_CS) (vs @ [0x1000000]))"
          using vs(2) set by (intro wait_block_complete) simp_all
        let ?rest = "[Rd PCM_CS 0x1000000] @ rmw PCM_CS CS_SYNC 0 0 @ Wb @ S0"
        have "init_sequence (new_log s u @ ?rest)"
          by (rule init_sequenceI[where e = e and y = 0, OF D(2) R(2) T(2) C(2) M(2) w Wb S0])
            (simp add: nl)
        then have "\<exists>rest. init_sequence (new_log s u @ rest)" ..
        then show ?thesis by (simp add: res)
      next
        case u3: (Inr u3)
        from wait_upto_Inr[OF u3] obtain W1 where W1: "log u3 = log x3 @ W1"
          "wait_block (\<lambda>v. get_field CS_SYNC v = 0) W1" by blast
        define y where "y = shd (inputs u3 PCM_CS)"
        define x4 where "x4 = field_write PCM_CS CS_SYNC 0 u3"
        have x4: "log x4 = log s @ (D @ R @ rmw PCM_CS CS_EN 0 e @ T @ C @ M @ W1 @
            rmw PCM_CS CS_SYNC 0 y)"
          by (simp add: x4_def log_field_write_rmw W1(1) x3 y_def del: log_field_write)
        show ?thesis
        proof (cases "while_upto n (poll PCM_CS (\<lambda>v. get_field CS_SYNC v \<noteq> 0)) id x4")
          case (Inl u)
          then have res: "spisl_init_upto n s = Inl u"
            by (simp add: spisl_init_upto_def u1 u2[unfolded x1_def] u3[unfolded x3_def] x4_def)
          from spin_upto_Inl[OF Inl] obtain vs where vs: "log u = log x4 @ map (Rd PCM_CS) vs"
            "\<forall>v \<in> set vs. get_field CS_SYNC v \<noteq> 0" by blast
          have "log u = log s @ (D @ R @ rmw PCM_CS CS_EN 0 e @ T @ C @ M @ W1 @
              rmw PCM_CS CS_SYNC 0 y @ map (Rd PCM_CS) vs)"
            by (simp add: vs(1) x4)
          then have nl: "new_log s u = D @ R @ rmw PCM_CS CS_EN 0 e @ T @ C @ M @ W1 @
              rmw PCM_CS CS_SYNC 0 y @ map (Rd PCM_CS) vs"
            by (rule new_log_append)
          have clear: "\<not> get_field CS_SYNC (0 :: u32) \<noteq> 0" by (simp add: get_field_def)
          have w: "wait_block (\<lambda>v. get_field CS_SYNC v \<noteq> 0) (map (Rd PCM_CS) (vs @ [0]))"
            using vs(2) clear by (intro wait_block_complete) simp_all
          let ?rest = "[Rd PCM_CS 0] @ S0"
          have "init_sequence (new_log s u @ ?rest)"
            by (rule init_sequenceI[where e = e and y = y, OF D(2) R(2) T(2) C(2) M(2) W1(2) w S0])
              (simp add: nl)
          then have "\<exists>rest. init_sequence (new_log s u @ rest)" ..
          then show ?thesis by (simp add: res)
        next
          case u4: (Inr u4)
          then have res: "spisl_init_upto n s = Inr (init_slave u4)"
            by (simp add: spisl_init_upto_def u1 u2[unfolded x1_def] u3[unfolded x3_def] x4_def)
          from wait_upto_Inr[OF u4] obtain W2 where W2: "log u4 = log x4 @ W2"
            "wait_block (\<lambda>v. get_field CS_SYNC v \<noteq> 0) W2" by blast
          from init_slave_seq[of u4] obtain S where S: "log (init_slave u4) = log u4 @ S"
            "slave_block S" by blast
          have "log (init_slave u4) = log s @ (D @ R @ rmw PCM_CS CS_EN 0 e @ T @ C @ M @ W1 @
              rmw PCM_CS CS_SYNC 0 y @ W2 @ S)"
            by (simp add: S(1) W2(1) x4)
          then have nl: "new_log s (init_slave u4) = D @ R @ rmw PCM_CS CS_EN 0 e @ T @ C @ M @ W1 @
              rmw PCM_CS CS_SYNC 0 y @ W2 @ S"
            by (rule new_log_append)
          have "init_sequence (new_log s (init_slave u4))"
            by (rule init_sequenceI[OF D(2) R(2) T(2) C(2) M(2) W1(2) W2(2) S(2) nl])
          then show ?thesis by (simp add: res)
        qed
      qed
    qed
  qed
qed

subsection \<open>A run that returns\<close>

lemma inputs_init_blocks:
  "inputs (init_detach s) PCM_CS = inputs s PCM_CS"
  "inputs (init_detach s) ST_CLO = inputs s ST_CLO"
  "inputs (init_master (init_channels s)) PCM_CS = inputs s PCM_CS"
  by (simp_all add: init_detach_def init_master_def init_channels_def Let_def)

lemma spisl_init_run:
  assumes cs: "inputs s PCM_CS = c0 ## c1 ## c2 ## c3 ## rest"
    and c0: "get_field CS_RXD c0 = 0"
    and c2: "get_field CS_SYNC c2 \<noteq> 0"
    and c4: "get_field CS_SYNC (shd rest) = 0"
    and clo: "inputs s ST_CLO = t0 ## t1 ## ts"
    and el: "st_elapsed t0 t1 ST_1ms"
  shows "\<exists>t. spisl_init s = Some t"
proof -
  define s0 where "s0 = init_detach s"
  have s0: "inputs s0 PCM_CS = c0 ## c1 ## c2 ## c3 ## rest" "inputs s0 ST_CLO = t0 ## t1 ## ts"
    by (simp_all add: s0_def inputs_init_blocks cs clo)
  define u1 where "u1 = snd (hw_read PCM_CS s0)"
  have d: "drain_fifo (init_detach s) = Some u1"
    using drain_fifo_steps[of 0 s0] c0 by (simp add: s0 u1_def s0_def[symmetric])
  define x1 where "x1 = field_write PCM_CS CS_EN 0 u1"
  have x1: "inputs x1 PCM_CS = c2 ## c3 ## rest" "inputs x1 ST_CLO = t0 ## t1 ## ts"
    by (simp_all add: x1_def u1_def s0)
  define u2 where "u2 = x1\<lparr>inputs := (inputs x1)(ST_CLO := ts),
           log := log x1 @ [Rd ST_CLO t0, Rd ST_CLO t1]\<rparr>"
  have t: "st_delay ST_1ms (field_write PCM_CS CS_EN 0 u1) = Some u2"
    unfolding u2_def x1_def[symmetric] by (rule st_delay_run[OF el x1(2)])
  have u2: "inputs u2 PCM_CS = c2 ## c3 ## rest"
    by (simp add: u2_def x1)
  define x3 where "x3 = init_master (init_channels u2)"
  have x3: "inputs x3 PCM_CS = c2 ## c3 ## rest"
    by (simp add: x3_def inputs_init_blocks u2)
  define u3 where "u3 = consume PCM_CS (Suc 0) x3"
  have "spin_while PCM_CS (\<lambda>v. get_field CS_SYNC v = 0) x3 = Some (consume PCM_CS (Suc 0) x3)"
    using c2 by (intro spin_while_steps) (simp_all add: x3)
  then have w1: "spin_while PCM_CS (\<lambda>v. get_field CS_SYNC v = 0)
      (init_master (init_channels u2)) = Some u3"
    by (simp only: u3_def x3_def)
  define x4 where "x4 = field_write PCM_CS CS_SYNC 0 u3"
  have x4: "inputs x4 PCM_CS = rest"
    by (simp add: x4_def u3_def inputs_consume x3)
  have "spin_while PCM_CS (\<lambda>v. get_field CS_SYNC v \<noteq> 0) x4 = Some (consume PCM_CS (Suc 0) x4)"
    using c4 by (intro spin_while_steps) (simp_all add: x4)
  then have w2: "spin_while PCM_CS (\<lambda>v. get_field CS_SYNC v \<noteq> 0)
      (field_write PCM_CS CS_SYNC 0 u3) = Some (consume PCM_CS (Suc 0) x4)"
    by (simp only: x4_def)
  have "spisl_init s = Some (init_slave (consume PCM_CS (Suc 0) x4))"
    unfolding spisl_init_def by (simp only: d t w1 w2 Option.bind.simps)
  then show ?thesis by (rule exI)
qed

subsection \<open>A run that blocks\<close>

lemma spisl_init_sync_stuck:
  assumes cs: "inputs s PCM_CS = c0 ## c1 ## rest"
    and c0: "get_field CS_RXD c0 = 0"
    and stuck: "\<forall>n. get_field CS_SYNC (rest !! n) = 0"
    and clo: "inputs s ST_CLO = t0 ## t1 ## ts"
    and el: "st_elapsed t0 t1 ST_1ms"
  shows "spisl_init s = None"
proof -
  define s0 where "s0 = init_detach s"
  have s0: "inputs s0 PCM_CS = c0 ## c1 ## rest" "inputs s0 ST_CLO = t0 ## t1 ## ts"
    by (simp_all add: s0_def inputs_init_blocks cs clo)
  define u1 where "u1 = snd (hw_read PCM_CS s0)"
  have d: "drain_fifo (init_detach s) = Some u1"
    using drain_fifo_steps[of 0 s0] c0 by (simp add: s0 u1_def s0_def[symmetric])
  define x1 where "x1 = field_write PCM_CS CS_EN 0 u1"
  have x1: "inputs x1 PCM_CS = rest" "inputs x1 ST_CLO = t0 ## t1 ## ts"
    by (simp_all add: x1_def u1_def s0)
  define u2 where "u2 = x1\<lparr>inputs := (inputs x1)(ST_CLO := ts),
           log := log x1 @ [Rd ST_CLO t0, Rd ST_CLO t1]\<rparr>"
  have t: "st_delay ST_1ms (field_write PCM_CS CS_EN 0 u1) = Some u2"
    unfolding u2_def x1_def[symmetric] by (rule st_delay_run[OF el x1(2)])
  have u2: "inputs u2 PCM_CS = rest"
    by (simp add: u2_def x1)
  define x3 where "x3 = init_master (init_channels u2)"
  have x3: "inputs x3 PCM_CS = rest"
    by (simp add: x3_def inputs_init_blocks u2)
  have "spin_while PCM_CS (\<lambda>v. get_field CS_SYNC v = 0) x3 = None"
    using stuck by (intro spin_while_stuck[where s = x3]) (simp_all add: x3)
  then have w1: "spin_while PCM_CS (\<lambda>v. get_field CS_SYNC v = 0)
      (init_master (init_channels u2)) = None"
    by (simp only: x3_def)
  show ?thesis
    unfolding spisl_init_def by (simp only: d t w1 Option.bind.simps)
qed

subsection \<open>The order of the steps\<close>



end
